theory Spec2Isabelle
  imports Main "HOL-Library.Sublist" "HOL-Library.Multiset"
begin

section \<open>Lua dependency resolution and bundling (utils/lua\_dependency.py)\<close>

text \<open>
  A shallow embedding of the module \<^verbatim>\<open>src/utils/lua_dependency.py\<close>. Text is a list of
  characters, each a code point below 256. The file system is a table of files and a set
  of directories; paths are compared as strings. Each function of the module that
  can raise returns a sum, the left summand carrying the exception; the closure walk, whose
  loop may run forever, returns an option, \<open>None\<close> meaning that the call never returns.
\<close>

subsection \<open>Exceptions and the file system\<close>

datatype error =
    FileNotFoundError | IsADirectoryError | NotADirectoryError | PermissionError
  | UnicodeDecodeError | IndexError | KeyError | JSONDecodeError

text \<open>
  A state of the file system: the regular files with their content, the directories, the
  paths that the system refuses to open for reading and for appending for lack of
  permission, and the files whose bytes are not UTF-8 text. Paths are compared as written.
\<close>

record filesystem =
  file_table :: "string \<rightharpoonup> string"
  directories :: "string set"
  read_denied :: "string set"
  append_denied :: "string set"
  undecodable :: "string set"

text \<open>\<^verbatim>\<open>os.path.exists\<close> and \<^verbatim>\<open>os.path.isdir\<close>.\<close>

definition path_exists :: "filesystem \<Rightarrow> string \<Rightarrow> bool" where
  "path_exists fs p = (p \<in> directories fs \<or> file_table fs p \<noteq> None)"

definition path_isdir :: "filesystem \<Rightarrow> string \<Rightarrow> bool" where
  "path_isdir fs p = (p \<in> directories fs)"

text \<open>The directories that lead to a path, the outermost first: the text before each
  separator after the first character.\<close>

definition ancestors :: "string \<Rightarrow> string list" where
  "ancestors p = map (\<lambda>i. take i p) (filter (\<lambda>i. p ! i = CHR ''/'') [1..<length p])"

text \<open>The error of \<^verbatim>\<open>open\<close> on a path that names neither a file nor a directory. The
  system resolves the path from the left: the first component that is not a directory stops
  it, with \<^verbatim>\<open>ENOTDIR\<close> when it is a file and \<^verbatim>\<open>ENOENT\<close> when it is missing. \<open>None\<close>
  means that every directory on the way is there.\<close>

fun resolve_error :: "filesystem \<Rightarrow> string list \<Rightarrow> error option" where
  "resolve_error fs [] = None"
| "resolve_error fs (d # ds) =
     (if d \<in> directories fs then resolve_error fs ds
      else if file_table fs d \<noteq> None then Some NotADirectoryError
      else Some FileNotFoundError)"

text \<open>The default newline handling of a file opened for reading in text mode: a carriage
  return followed by a line feed, and a carriage return alone, are read as one line feed.\<close>

fun universal_newlines :: "string \<Rightarrow> string" where
  "universal_newlines [] = []"
| "universal_newlines [c] = (if c = CHR 0x0D then [CHR ''\<newline>''] else [c])"
| "universal_newlines (c # d # cs) =
     (if c = CHR 0x0D \<and> d = CHR ''\<newline>'' then CHR ''\<newline>'' # universal_newlines cs
      else if c = CHR 0x0D then CHR ''\<newline>'' # universal_newlines (d # cs)
      else c # universal_newlines (d # cs))"

text \<open>\<^verbatim>\<open>read_lua_file\<close>: \<^verbatim>\<open>open(file_path, 'r', encoding='utf-8')\<close> raises when
  permission is refused, on a directory and on a path that names nothing;
  \<^verbatim>\<open>file.read()\<close> raises on bytes that do not decode and returns the text with its
  newlines translated.\<close>

definition read_lua_file :: "filesystem \<Rightarrow> string \<Rightarrow> error + string" where
  "read_lua_file fs file_path =
     (if file_path \<in> read_denied fs then Inl PermissionError
      else if file_path \<in> directories fs then Inl IsADirectoryError
      else case file_table fs file_path of
             None \<Rightarrow>
               (case resolve_error fs (ancestors file_path) of
                  Some e \<Rightarrow> Inl e
                | None \<Rightarrow> Inl FileNotFoundError)
           | Some content \<Rightarrow>
               if file_path \<in> undecodable fs then Inl UnicodeDecodeError
               else Inr (universal_newlines content))"

text \<open>\<^verbatim>\<open>write_files\<close>: \<^verbatim>\<open>open(file_path, "a", encoding="utf-8")\<close> raises when
  permission is refused and on a directory; it positions every write at the end of an
  existing file, and creates a missing file when the directories that lead to it are
  there. The empty path names nothing. The text is written as it is: on a POSIX system
  the line feed is the line separator, and every character of the model encodes in UTF-8.\<close>

definition write_files :: "filesystem \<Rightarrow> string \<Rightarrow> string \<Rightarrow> error + filesystem" where
  "write_files fs file_path content =
     (if file_path \<in> append_denied fs then Inl PermissionError
      else if file_path \<in> directories fs then Inl IsADirectoryError
      else case file_table fs file_path of
             Some old \<Rightarrow> Inr (fs\<lparr>file_table := (file_table fs)(file_path \<mapsto> old @ content)\<rparr>)
           | None \<Rightarrow>
               (case resolve_error fs (ancestors file_path) of
                  Some e \<Rightarrow> Inl e
                | None \<Rightarrow>
                    if file_path = [] then Inl FileNotFoundError
                    else Inr (fs\<lparr>file_table := (file_table fs)(file_path \<mapsto> content)\<rparr>)))"

subsection \<open>Python string operations\<close>

text \<open>\<^verbatim>\<open>s.split(sep)\<close> for a one-character separator: one more part than separators,
  empty parts kept.\<close>

fun split_on :: "char \<Rightarrow> string \<Rightarrow> string list" where
  "split_on d [] = [[]]"
| "split_on d (c # cs) =
     (if c = d then [] # split_on d cs
      else (case split_on d cs of
              [] \<Rightarrow> [[c]]
            | x # xs \<Rightarrow> (c # x) # xs))"

text \<open>\<^verbatim>\<open>xs[i]\<close> for a non-negative index.\<close>

definition py_nth :: "'a list \<Rightarrow> nat \<Rightarrow> error + 'a" where
  "py_nth xs i = (if i < length xs then Inr (xs ! i) else Inl IndexError)"

text \<open>\<^verbatim>\<open>sub in s\<close> on strings.\<close>

fun contains :: "string \<Rightarrow> string \<Rightarrow> bool" where
  "contains sub [] = (sub = [])"
| "contains sub (c # cs) = (prefix sub (c # cs) \<or> contains sub cs)"

text \<open>\<^verbatim>\<open>s.replace(old, new)\<close>: the occurrences of \<open>old\<close> are replaced from the left, without
  overlap; an empty \<open>old\<close> matches before every character and at the end.\<close>

function replace_from :: "string \<Rightarrow> string \<Rightarrow> string \<Rightarrow> string" where
  "replace_from old new [] = []"
| "replace_from old new (c # cs) =
     (if old \<noteq> [] \<and> prefix old (c # cs)
      then new @ replace_from old new (drop (length old) (c # cs))
      else c # replace_from old new cs)"
  by pat_completeness auto
termination
  by (relation "measure (\<lambda>(old, new, s). length s)") (auto simp: neq_Nil_conv)

definition str_replace :: "string \<Rightarrow> string \<Rightarrow> string \<Rightarrow> string" where
  "str_replace old new s =
     (if old = [] then new @ concat (map (\<lambda>c. c # new) s) else replace_from old new s)"

text \<open>\<^verbatim>\<open>folder.replace(".", "/")\<close>.\<close>

definition dotted_path :: "string \<Rightarrow> string" where
  "dotted_path s = str_replace ''.'' ''/'' s"

text \<open>\<^verbatim>\<open>s.endswith(suf)\<close>.\<close>

definition endswith :: "string \<Rightarrow> string \<Rightarrow> bool" where
  "endswith s suf = prefix (rev suf) (rev s)"

subsection \<open>Regular expressions\<close>

text \<open>
  The character classes of \<^verbatim>\<open>re\<close> on \<^verbatim>\<open>str\<close> patterns, for code points below 256:
  \<^verbatim>\<open>\w\<close> is an alphanumeric character or the underscore, \<^verbatim>\<open>\s\<close> is a whitespace
  character.
\<close>

definition is_word :: "char \<Rightarrow> bool" where
  "is_word c = (let n = (of_char c :: nat) in
     (48 \<le> n \<and> n \<le> 57) \<or> (65 \<le> n \<and> n \<le> 90) \<or> n = 95 \<or> (97 \<le> n \<and> n \<le> 122) \<or>
     n = 170 \<or> (178 \<le> n \<and> n \<le> 179) \<or> n = 181 \<or> (185 \<le> n \<and> n \<le> 186) \<or>
     (188 \<le> n \<and> n \<le> 190) \<or> (192 \<le> n \<and> n \<le> 214) \<or> (216 \<le> n \<and> n \<le> 246) \<or>
     248 \<le> n)"

definition is_space :: "char \<Rightarrow> bool" where
  "is_space c = (let n = (of_char c :: nat) in
     (9 \<le> n \<and> n \<le> 13) \<or> (28 \<le> n \<and> n \<le> 32) \<or> n = 133 \<or> n = 160)"

text \<open>
  The patterns of the module are sequences of four kinds of item: an escaped literal, one
  character of a class, a class repeated at least \<open>m\<close> times (greedy or lazy), and the line
  anchors \<^verbatim>\<open>^\<close> and \<^verbatim>\<open>$\<close> under \<^verbatim>\<open>re.MULTILINE\<close>.
\<close>

datatype rx =
    Lit string
  | Cls "char \<Rightarrow> bool"
  | Rep "char \<Rightarrow> bool" nat bool
  | Bol
  | Eol

fun first_some :: "('a \<Rightarrow> 'b option) \<Rightarrow> 'a list \<Rightarrow> 'b option" where
  "first_some f [] = None"
| "first_some f (x # xs) = (case f x of Some y \<Rightarrow> Some y | None \<Rightarrow> first_some f xs)"

text \<open>The repetition counts a backtracking matcher tries, in its order: a greedy
  repetition from the longest run down, a lazy one from the shortest up.\<close>

definition counts :: "bool \<Rightarrow> nat \<Rightarrow> nat \<Rightarrow> nat list" where
  "counts greedy m n = (if greedy then rev [m..<Suc n] else [m..<Suc n])"

definition prev_after :: "char option \<Rightarrow> string \<Rightarrow> char option" where
  "prev_after prev t = (if t = [] then prev else Some (last t))"

text \<open>
  \<open>rx_match rs prev s\<close> matches the items \<open>rs\<close> at the start of \<open>s\<close>, where \<open>prev\<close> is the
  character before \<open>s\<close> in the whole text (\<open>None\<close> at its start). It returns the text each
  item consumed, for the first match in backtracking order.
\<close>

fun rx_match :: "rx list \<Rightarrow> char option \<Rightarrow> string \<Rightarrow> string list option" where
  "rx_match [] prev s = Some []"
| "rx_match (Lit l # rs) prev s =
     (if prefix l s
      then map_option (Cons l) (rx_match rs (prev_after prev l) (drop (length l) s))
      else None)"
| "rx_match (Cls cl # rs) prev s =
     (case s of
        [] \<Rightarrow> None
      | x # xs \<Rightarrow> if cl x then map_option (Cons [x]) (rx_match rs (Some x) xs) else None)"
| "rx_match (Rep cl m greedy # rs) prev s =
     first_some
       (\<lambda>k. map_option (Cons (take k s))
               (rx_match rs (prev_after prev (take k s)) (drop k s)))
       (counts greedy m (length (takeWhile cl s)))"
| "rx_match (Bol # rs) prev s =
     (if prev = None \<or> prev = Some CHR ''\<newline>''
      then map_option (Cons []) (rx_match rs prev s) else None)"
| "rx_match (Eol # rs) prev s =
     (if s = [] \<or> hd s = CHR ''\<newline>''
      then map_option (Cons []) (rx_match rs prev s) else None)"

text \<open>\<^verbatim>\<open>re.search\<close>: the match at the leftmost position that has one.\<close>

fun rx_search :: "rx list \<Rightarrow> char option \<Rightarrow> string \<Rightarrow> string list option" where
  "rx_search rs prev [] = rx_match rs prev []"
| "rx_search rs prev (c # cs) =
     (case rx_match rs prev (c # cs) of
        Some segs \<Rightarrow> Some segs
      | None \<Rightarrow> rx_search rs (Some c) cs)"

text \<open>\<^verbatim>\<open>re.findall\<close>: the matches from left to right, each search resuming where the
  previous match ended; \<open>skip\<close> counts the characters still covered by that match.\<close>

fun rx_findall :: "rx list \<Rightarrow> char option \<Rightarrow> nat \<Rightarrow> string \<Rightarrow> string list list" where
  "rx_findall rs prev skip [] =
     (if skip = 0 then (case rx_match rs prev [] of Some segs \<Rightarrow> [segs] | None \<Rightarrow> []) else [])"
| "rx_findall rs prev skip (c # cs) =
     (if 0 < skip then rx_findall rs (Some c) (skip - 1) cs
      else (case rx_match rs prev (c # cs) of
              Some segs \<Rightarrow> segs # rx_findall rs (Some c) (length (concat segs) - 1) cs
            | None \<Rightarrow> rx_findall rs (Some c) 0 cs))"

subsection \<open>Reference scanner\<close>

text \<open>\<^verbatim>\<open>find_references\<close>: the pattern is \<^verbatim>\<open>rf'{re.escape(module_name)}\.[\w_]+'\<close>.\<close>

definition find_references :: "string \<Rightarrow> string \<Rightarrow> string list" where
  "find_references lua_code module_name =
     map concat
       (rx_findall [Lit module_name, Lit ''.'', Rep (\<lambda>c. is_word c \<or> c = CHR ''_'') 1 True]
          None 0 lua_code)"

subsection \<open>Source scanner pattern\<close>

text \<open>\<^verbatim>\<open>extract_local_requirements\<close>: the pattern is
  \<^verbatim>\<open>local\s+(\w+)\s*=\s*require\s*["\']([\w\.]+)["\']\<close>; \<^verbatim>\<open>re.findall\<close> returns the
  pair of its two groups for every match.\<close>

definition is_quote :: "char \<Rightarrow> bool" where
  "is_quote c = (c = CHR 0x22 \<or> c = CHR 0x27)"

definition require_pattern :: "rx list" where
  "require_pattern =
     [Lit ''local'', Rep is_space 1 True, Rep is_word 1 True, Rep is_space 0 True, Lit ''='',
      Rep is_space 0 True, Lit ''require'', Rep is_space 0 True, Cls is_quote,
      Rep (\<lambda>c. is_word c \<or> c = CHR ''.'') 1 True, Cls is_quote]"

definition extract_local_requirements :: "string \<Rightarrow> (string \<times> string) list" where
  "extract_local_requirements lua_code =
     map (\<lambda>segs. (segs ! 2, segs ! 9)) (rx_findall require_pattern None 0 lua_code)"

subsection \<open>Function extractor\<close>

text \<open>\<^verbatim>\<open>extract_function_block\<close>: both patterns are searched with
  \<^verbatim>\<open>re.MULTILINE | re.DOTALL\<close>, so \<^verbatim>\<open>.\<close> is any character; the assignment form
  \<^verbatim>\<open>{name}\s*=\s*function\s*\(.*?\)\s*\n(.*?)^end\s*$\<close> is tried first, then the
  declaration form \<^verbatim>\<open>function\s+{name}\s*\(.*?\)\s*\n(.*?)^end\s*$\<close>.\<close>

definition assignment_pattern :: "string \<Rightarrow> rx list" where
  "assignment_pattern function_name =
     [Lit function_name, Rep is_space 0 True, Lit ''='', Rep is_space 0 True, Lit ''function'',
      Rep is_space 0 True, Lit ''('', Rep (\<lambda>c. True) 0 False, Lit '')'', Rep is_space 0 True,
      Lit ''\<newline>'', Rep (\<lambda>c. True) 0 False, Bol, Lit ''end'', Rep is_space 0 True, Eol]"

definition declaration_pattern :: "string \<Rightarrow> rx list" where
  "declaration_pattern function_name =
     [Lit ''function'', Rep is_space 1 True, Lit function_name,
      Rep is_space 0 True, Lit ''('', Rep (\<lambda>c. True) 0 False, Lit '')'', Rep is_space 0 True,
      Lit ''\<newline>'', Rep (\<lambda>c. True) 0 False, Bol, Lit ''end'', Rep is_space 0 True, Eol]"

definition extract_function_block :: "string \<Rightarrow> string \<Rightarrow> string option" where
  "extract_function_block lua_code function_name =
     (case rx_search (assignment_pattern function_name) None lua_code of
        Some segs \<Rightarrow> Some (concat segs)
      | None \<Rightarrow>
          (case rx_search (declaration_pattern function_name) None lua_code of
             Some segs \<Rightarrow> Some (concat segs)
           | None \<Rightarrow> None))"

subsection \<open>Dependency closure\<close>

text \<open>The dependency index (\<^verbatim>\<open>dependencies_obj\<close>) maps a file name to the list of
  (alias, dotted path) pairs the file declares. Only lookups are made in it.\<close>

type_synonym index = "string \<rightharpoonup> (string \<times> string) list"

text \<open>The seed of the walk:
  \<^verbatim>\<open>unique = unique.split('.')[1] if '.' in unique else unique\<close>. A string with a
  dot splits into two parts or more, so the index 1 is in range.\<close>

definition seed :: "string \<Rightarrow> string" where
  "seed unique = (if CHR ''.'' \<in> set unique then split_on CHR ''.'' unique ! 1 else unique)"

text \<open>The \<^verbatim>\<open>while not q.empty()\<close> loop over the FIFO queue \<open>q\<close>. The loop has no bound, so
  the model is a partial function: \<open>None\<close> is a walk that never ends.\<close>

partial_function (option) bfs_loop :: "index \<Rightarrow> string list \<Rightarrow> string list \<Rightarrow> string list option" where
  "bfs_loop dependencies_obj q dependencies =
     (case q of
        [] \<Rightarrow> Some dependencies
      | temp # rest \<Rightarrow>
          (case dependencies_obj (temp @ ''.lua'') of
             Some value_array \<Rightarrow>
               bfs_loop dependencies_obj (rest @ map fst value_array) (dependencies @ [temp])
           | None \<Rightarrow> bfs_loop dependencies_obj rest dependencies))"

declare bfs_loop.simps [code]

definition extract_dependencies :: "string \<Rightarrow> index \<Rightarrow> string list option" where
  "extract_dependencies unique dependencies_obj = bfs_loop dependencies_obj [seed unique] []"

subsection \<open>Dictionaries in insertion order\<close>

text \<open>A Python \<^verbatim>\<open>dict\<close> that is iterated is an association list with distinct keys:
  assigning to a present key keeps its place, assigning to a new key appends it.\<close>

definition dict_set :: "('k \<times> 'v) list \<Rightarrow> 'k \<Rightarrow> 'v \<Rightarrow> ('k \<times> 'v) list" where
  "dict_set d k v =
     (if k \<in> fst ` set d then map (\<lambda>(k', v'). if k' = k then (k', v) else (k', v')) d
      else d @ [(k, v)])"

text \<open>The map from file path to the qualified function names to pull from the file
  (\<^verbatim>\<open>extract_depen_obj\<close>, \<^verbatim>\<open>return_obj\<close>).\<close>

type_synonym function_map = "(string \<times> string list) list"

subsection \<open>Transmitting collection\<close>

text \<open>\<^verbatim>\<open>parse_transmitting_dependency\<close>. The parameter \<open>list_set\<close> stands for
  \<^verbatim>\<open>list(set(...))\<close>, whose order Python does not fix. The body of the inner loop reads
  the module file without a check when the alias is a key of the index, and only after
  \<^verbatim>\<open>os.path.exists\<close> otherwise.\<close>

definition transmit_value ::
  "(string list \<Rightarrow> string list) \<Rightarrow> filesystem \<Rightarrow> string \<Rightarrow> index \<Rightarrow> function_map \<Rightarrow>
   string \<times> string \<Rightarrow> error + function_map" where
  "transmit_value list_set fs parent_folder dependencies_obj return_obj value =
     (let unique = fst value; folder = snd value;
          sub_key = unique @ ''.lua'';
          target_lua_file = parent_folder @ ''/'' @ dotted_path folder @ ''.lua''
      in if dependencies_obj sub_key \<noteq> None then
           (case read_lua_file fs target_lua_file of
              Inl e \<Rightarrow> Inl e
            | Inr code_content \<Rightarrow>
                Inr (dict_set return_obj target_lua_file
                       (list_set (find_references code_content unique))))
         else if path_exists fs target_lua_file then
           (case read_lua_file fs target_lua_file of
              Inl e \<Rightarrow> Inl e
            | Inr code_content \<Rightarrow>
                Inr (dict_set return_obj target_lua_file
                       (list_set (find_references code_content unique))))
         else Inr return_obj)"

fun transmit_values ::
  "(string list \<Rightarrow> string list) \<Rightarrow> filesystem \<Rightarrow> string \<Rightarrow> index \<Rightarrow> function_map \<Rightarrow>
   (string \<times> string) list \<Rightarrow> error + function_map" where
  "transmit_values list_set fs parent_folder dependencies_obj return_obj [] = Inr return_obj"
| "transmit_values list_set fs parent_folder dependencies_obj return_obj (value # value_array) =
     (case transmit_value list_set fs parent_folder dependencies_obj return_obj value of
        Inl e \<Rightarrow> Inl e
      | Inr return_obj' \<Rightarrow>
          transmit_values list_set fs parent_folder dependencies_obj return_obj' value_array)"

fun transmit_modules ::
  "(string list \<Rightarrow> string list) \<Rightarrow> filesystem \<Rightarrow> string \<Rightarrow> index \<Rightarrow> function_map \<Rightarrow>
   string list \<Rightarrow> error + function_map" where
  "transmit_modules list_set fs parent_folder dependencies_obj return_obj [] = Inr return_obj"
| "transmit_modules list_set fs parent_folder dependencies_obj return_obj (depen # depen_dic) =
     (let key = depen @ ''.lua'';
          value_array = (case dependencies_obj key of None \<Rightarrow> [] | Some vs \<Rightarrow> vs)
      in case transmit_values list_set fs parent_folder dependencies_obj return_obj value_array of
           Inl e \<Rightarrow> Inl e
         | Inr return_obj' \<Rightarrow>
             transmit_modules list_set fs parent_folder dependencies_obj return_obj' depen_dic)"

definition parse_transmitting_dependency ::
  "(string list \<Rightarrow> string list) \<Rightarrow> filesystem \<Rightarrow> string \<Rightarrow> string list \<Rightarrow> index \<Rightarrow>
   error + function_map" where
  "parse_transmitting_dependency list_set fs parent_folder depen_dic dependencies_obj =
     transmit_modules list_set fs parent_folder dependencies_obj [] depen_dic"

subsection \<open>Bundle assembly\<close>

text \<open>The inner loop of \<^verbatim>\<open>generate_new_combine_lua\<close> over the function names of one file.
  A name that contains \<^verbatim>\<open>_utils\<close> is looked up as \<^verbatim>\<open>utils.<member>\<close>; a block that
  is found and is not empty is appended after a newline, with the looked-up name replaced by
  the original one.\<close>

fun combine_functions :: "string \<Rightarrow> string \<Rightarrow> string list \<Rightarrow> error + string" where
  "combine_functions code_content combine_code [] = Inr combine_code"
| "combine_functions code_content combine_code (func # functions) =
     (case (if contains ''_utils'' func
            then (case py_nth (split_on CHR ''.'' func) 1 of
                    Inl e \<Rightarrow> Inl e
                  | Inr member \<Rightarrow> Inr (''utils.'' @ member))
            else Inr func) of
        Inl e \<Rightarrow> Inl e
      | Inr temp_func \<Rightarrow>
          (case extract_function_block code_content temp_func of
             None \<Rightarrow> combine_functions code_content combine_code functions
           | Some extract_function \<Rightarrow>
               if extract_function \<noteq> []
               then combine_functions code_content
                      (combine_code @ ''\<newline>'' @ str_replace temp_func func extract_function)
                      functions
               else combine_functions code_content combine_code functions))"

text \<open>The outer loop over the keys of the map: a path that does not exist is skipped.\<close>

fun combine_files :: "filesystem \<Rightarrow> string \<Rightarrow> function_map \<Rightarrow> error + string" where
  "combine_files fs combine_code [] = Inr combine_code"
| "combine_files fs combine_code ((key, functions) # extract_depen_obj) =
     (if \<not> path_exists fs key then combine_files fs combine_code extract_depen_obj
      else (case read_lua_file fs key of
              Inl e \<Rightarrow> Inl e
            | Inr code_content \<Rightarrow>
                (case combine_functions code_content combine_code functions of
                   Inl e \<Rightarrow> Inl e
                 | Inr combine_code' \<Rightarrow> combine_files fs combine_code' extract_depen_obj)))"

text \<open>The text of the bundle, the f-string \<^verbatim>\<open>write_code\<close>.\<close>

definition write_code :: "string \<Rightarrow> string \<Rightarrow> string" where
  "write_code combine_code original_code =
     ''\<newline>    ------------------import functions begin------------------\<newline>\<newline>    ''
     @ combine_code
     @ ''\<newline>\<newline>    ------------------import functions end------------------\<newline>\<newline>\<newline>    ''
     @ original_code
     @ ''\<newline>    ''"

definition write_path :: "string \<Rightarrow> string \<Rightarrow> string \<Rightarrow> string" where
  "write_path parent_folder sub_folder filename =
     parent_folder @ ''/'' @ sub_folder @ ''/'' @ hd (split_on CHR ''.'' filename) @ ''_new.lua''"

definition generate_new_combine_lua ::
  "filesystem \<Rightarrow> string \<Rightarrow> string \<Rightarrow> string \<Rightarrow> function_map \<Rightarrow> error + filesystem" where
  "generate_new_combine_lua fs parent_folder sub_folder filename extract_depen_obj =
     (let destination = parent_folder @ ''/'' @ sub_folder @ ''/'' @ filename
      in case read_lua_file fs destination of
           Inl e \<Rightarrow> Inl e
         | Inr original_code \<Rightarrow>
             (case combine_files fs [] extract_depen_obj of
                Inl e \<Rightarrow> Inl e
              | Inr combine_code \<Rightarrow>
                  write_files fs (write_path parent_folder sub_folder filename)
                    (write_code combine_code original_code)))"

subsection \<open>Bundling\<close>

text \<open>The merge of \<^verbatim>\<open>return_obj\<close> into \<^verbatim>\<open>extract_depen_obj\<close> at the end of
  \<^verbatim>\<open>get_target_code\<close>'s inner loop: a new key takes the list, a present key gains the
  values it does not hold yet. The lists of one \<^verbatim>\<open>return_obj\<close> are distinct objects
  that nothing else refers to, so the in-place \<^verbatim>\<open>append\<close> is an update of that one entry.\<close>

fun append_missing :: "string list \<Rightarrow> string list \<Rightarrow> string list" where
  "append_missing current [] = current"
| "append_missing current (val # values) =
     append_missing (if val \<notin> set current then current @ [val] else current) values"

fun merge_return_obj :: "function_map \<Rightarrow> function_map \<Rightarrow> function_map" where
  "merge_return_obj extract_depen_obj [] = extract_depen_obj"
| "merge_return_obj extract_depen_obj ((key, values) # return_obj) =
     merge_return_obj
       (case map_of extract_depen_obj key of
          None \<Rightarrow> dict_set extract_depen_obj key values
        | Some current \<Rightarrow> dict_set extract_depen_obj key (append_missing current values))
       return_obj"

text \<open>The body of \<^verbatim>\<open>for unique in unique_functions\<close>. The outer option is \<open>None\<close> when
  the closure walk does not return.\<close>

definition collect_unique ::
  "(string list \<Rightarrow> string list) \<Rightarrow> filesystem \<Rightarrow> string \<Rightarrow> index \<Rightarrow> string \<Rightarrow>
   function_map \<Rightarrow> string \<Rightarrow> (error + function_map) option" where
  "collect_unique list_set fs parent_folder dependencies_obj reference extract_depen_obj unique =
     (let sub_destination = parent_folder @ ''/'' @ dotted_path reference;
          folder_flag = path_isdir fs sub_destination
      in case extract_dependencies unique dependencies_obj of
           None \<Rightarrow> None
         | Some depen_dic \<Rightarrow>
             if length depen_dic \<le> 0 then
               (let target_lua_file =
                      (if folder_flag then sub_destination @ ''/init.lua''
                       else sub_destination @ ''.lua'')
                in case map_of extract_depen_obj target_lua_file of
                     None \<Rightarrow> Some (Inr (dict_set extract_depen_obj target_lua_file [unique]))
                   | Some current \<Rightarrow>
                       Some (Inr (dict_set extract_depen_obj target_lua_file (current @ [unique]))))
             else
               (case py_nth (split_on CHR ''.'' unique) 1 of
                  Inl e \<Rightarrow> Some (Inl e)
                | Inr member \<Rightarrow>
                    (let combo = dotted_path reference @ ''/'' @ member @ ''.lua'';
                         target_lua_file = parent_folder @ ''/'' @ combo;
                         extract_depen_obj' = dict_set extract_depen_obj target_lua_file []
                     in case parse_transmitting_dependency list_set fs parent_folder depen_dic
                               dependencies_obj of
                          Inl e \<Rightarrow> Some (Inl e)
                        | Inr return_obj \<Rightarrow>
                            Some (Inr (merge_return_obj extract_depen_obj' return_obj)))))"

fun collect_uniques ::
  "(string list \<Rightarrow> string list) \<Rightarrow> filesystem \<Rightarrow> string \<Rightarrow> index \<Rightarrow> string \<Rightarrow>
   function_map \<Rightarrow> string list \<Rightarrow> (error + function_map) option" where
  "collect_uniques list_set fs parent_folder dependencies_obj reference extract_depen_obj [] =
     Some (Inr extract_depen_obj)"
| "collect_uniques list_set fs parent_folder dependencies_obj reference extract_depen_obj
     (unique # unique_functions) =
     (case collect_unique list_set fs parent_folder dependencies_obj reference
             extract_depen_obj unique of
        None \<Rightarrow> None
      | Some (Inl e) \<Rightarrow> Some (Inl e)
      | Some (Inr extract_depen_obj') \<Rightarrow>
          collect_uniques list_set fs parent_folder dependencies_obj reference
            extract_depen_obj' unique_functions)"

text \<open>The loop \<^verbatim>\<open>for module, reference in dependencies_array\<close>.\<close>

fun collect_entries ::
  "(string list \<Rightarrow> string list) \<Rightarrow> filesystem \<Rightarrow> string \<Rightarrow> index \<Rightarrow> string \<Rightarrow>
   function_map \<Rightarrow> (string \<times> string) list \<Rightarrow> (error + function_map) option" where
  "collect_entries list_set fs parent_folder dependencies_obj code_content extract_depen_obj [] =
     Some (Inr extract_depen_obj)"
| "collect_entries list_set fs parent_folder dependencies_obj code_content extract_depen_obj
     ((module, reference) # dependencies_array) =
     (let reference_functions = find_references code_content module;
          unique_functions = list_set reference_functions
      in case collect_uniques list_set fs parent_folder dependencies_obj reference
                extract_depen_obj unique_functions of
           None \<Rightarrow> None
         | Some (Inl e) \<Rightarrow> Some (Inl e)
         | Some (Inr extract_depen_obj') \<Rightarrow>
             collect_entries list_set fs parent_folder dependencies_obj code_content
               extract_depen_obj' dependencies_array)"

text \<open>\<^verbatim>\<open>dependencies_content.rstrip()\<close>.\<close>

definition rstrip :: "string \<Rightarrow> string" where
  "rstrip s = rev (dropWhile is_space (rev s))"

text \<open>\<^verbatim>\<open>get_target_code\<close>. The parameter \<open>json_loads\<close> stands for \<^verbatim>\<open>json.loads\<close>
  on the text of an index, \<open>None\<close> being its \<^verbatim>\<open>JSONDecodeError\<close>. The message printed
  when the target has no entry is not modelled. The result is the file system after the
  call.\<close>

definition get_target_code ::
  "(string list \<Rightarrow> string list) \<Rightarrow> (string \<Rightarrow> index option) \<Rightarrow> filesystem \<Rightarrow>
   string \<Rightarrow> string \<Rightarrow> string \<Rightarrow> string \<Rightarrow> (error + filesystem) option" where
  "get_target_code list_set json_loads fs parent_folder sub_folder filename dependencies_file =
     (let destination = parent_folder @ ''/'' @ sub_folder @ ''/'' @ filename
      in case read_lua_file fs dependencies_file of
           Inl e \<Rightarrow> Some (Inl e)
         | Inr dependencies_content \<Rightarrow>
             (case json_loads (rstrip dependencies_content) of
                None \<Rightarrow> Some (Inl JSONDecodeError)
              | Some dependencies_obj \<Rightarrow>
                  (case dependencies_obj filename of
                     None \<Rightarrow> Some (Inr fs)
                   | Some dependencies_array \<Rightarrow>
                       (case read_lua_file fs destination of
                          Inl e \<Rightarrow> Some (Inl e)
                        | Inr code_content \<Rightarrow>
                            (case collect_entries list_set fs parent_folder dependencies_obj
                                    code_content [] dependencies_array of
                               None \<Rightarrow> None
                             | Some (Inl e) \<Rightarrow> Some (Inl e)
                             | Some (Inr extract_depen_obj) \<Rightarrow>
                                 Some (generate_new_combine_lua fs parent_folder sub_folder
                                         filename extract_depen_obj))))))"

subsection \<open>Source scanner\<close>

text \<open>\<^verbatim>\<open>os.path.join(root, file)\<close> for a file name from a directory listing.\<close>

definition path_join :: "string \<Rightarrow> string \<Rightarrow> string" where
  "path_join root file =
     (if root = [] \<or> last root = CHR ''/'' then root @ file else root @ ''/'' @ file)"

text \<open>\<^verbatim>\<open>generate_dependency_json\<close>. The parameter \<open>walk\<close> is what \<^verbatim>\<open>os.walk(folder)\<close>
  yields, the directories in its order, each with the names of its files; \<open>json_dumps\<close> stands
  for \<^verbatim>\<open>json.dumps\<close>. \<open>scan_files\<close> is the loop over the files of one directory,
  \<open>scan_walk\<close> the loop over the directories.\<close>

type_synonym requirement_dict = "(string \<times> (string \<times> string) list) list"

fun scan_files ::
  "filesystem \<Rightarrow> string \<Rightarrow> requirement_dict \<Rightarrow> string list \<Rightarrow> error + requirement_dict" where
  "scan_files fs root requirement_local [] = Inr requirement_local"
| "scan_files fs root requirement_local (file # files) =
     (if endswith file ''.lua'' then
        (case read_lua_file fs (path_join root file) of
           Inl e \<Rightarrow> Inl e
         | Inr lua_code \<Rightarrow>
             (let local_requires = extract_local_requirements lua_code
              in if length local_requires > 0
                 then scan_files fs root (dict_set requirement_local file local_requires) files
                 else scan_files fs root requirement_local files))
      else scan_files fs root requirement_local files)"

fun scan_walk ::
  "filesystem \<Rightarrow> requirement_dict \<Rightarrow> (string \<times> string list) list \<Rightarrow> error + requirement_dict" where
  "scan_walk fs requirement_local [] = Inr requirement_local"
| "scan_walk fs requirement_local ((root, files) # walk) =
     (case scan_files fs root requirement_local files of
        Inl e \<Rightarrow> Inl e
      | Inr requirement_local' \<Rightarrow> scan_walk fs requirement_local' walk)"

definition generate_dependency_json ::
  "(requirement_dict \<Rightarrow> string) \<Rightarrow> filesystem \<Rightarrow> (string \<times> string list) list \<Rightarrow> string \<Rightarrow>
   error + filesystem" where
  "generate_dependency_json json_dumps fs walk output_file =
     (case scan_walk fs [] walk of
        Inl e \<Rightarrow> Inl e
      | Inr requirement_local \<Rightarrow> write_files fs output_file (json_dumps requirement_local))"

subsection \<open>Notions used in the statements\<close>

text \<open>The content of a file before a call, empty when the file does not exist, and the
  relation between two states of the file system in which every file of the first is still
  there with its old content as a prefix of the new one.\<close>

definition previous :: "filesystem \<Rightarrow> string \<Rightarrow> string" where
  "previous fs p = (case file_table fs p of None \<Rightarrow> [] | Some old \<Rightarrow> old)"

definition extends :: "filesystem \<Rightarrow> filesystem \<Rightarrow> bool" where
  "extends fs fs' =
     (directories fs' = directories fs \<and>
      (\<forall>p old. file_table fs p = Some old \<longrightarrow> (\<exists>added. file_table fs' p = Some (old @ added))))"

text \<open>The require graph of an index: \<open>m\<close> requires \<open>m'\<close> when the index has an entry
  for \<open>m.lua\<close> that lists the alias \<open>m'\<close>. \<open>closure_of\<close> is the set of modules that have
  an index entry and are reachable from a set of start modules.\<close>

definition requires :: "index \<Rightarrow> (string \<times> string) set" where
  "requires idx = {(m, m'). \<exists>value_array. idx (m @ ''.lua'') = Some value_array \<and> m' \<in> fst ` set value_array}"

definition reaches_cycle :: "index \<Rightarrow> string \<Rightarrow> bool" where
  "reaches_cycle idx m = (\<exists>c. (m, c) \<in> (requires idx)\<^sup>* \<and> (c, c) \<in> (requires idx)\<^sup>+)"

definition closure_of :: "index \<Rightarrow> string set \<Rightarrow> string set" where
  "closure_of idx S = {m. \<exists>s\<in>S. (s, m) \<in> (requires idx)\<^sup>* \<and> m @ ''.lua'' \<in> dom idx}"

text \<open>An occurrence of a reference at the start of a text: the alias, a dot and at least one
  word character; its text runs to the end of the word. \<open>all_references\<close> lists the
  occurrences at every position, \<open>leftmost_references\<close> the ones met from the left when the
  scan resumes after the end of each occurrence.\<close>

definition occurs_here :: "string \<Rightarrow> string \<Rightarrow> bool" where
  "occurs_here alias s =
     (prefix (alias @ ''.'') s \<and>
      (case drop (length alias + 1) s of [] \<Rightarrow> False | c # cs \<Rightarrow> is_word c))"

definition reference_here :: "string \<Rightarrow> string \<Rightarrow> string" where
  "reference_here alias s = alias @ ''.'' @ takeWhile is_word (drop (length alias + 1) s)"

definition all_references :: "string \<Rightarrow> string \<Rightarrow> string list" where
  "all_references alias code =
     map (\<lambda>i. reference_here alias (drop i code))
       (filter (\<lambda>i. occurs_here alias (drop i code)) [0..<length code])"

function leftmost_references :: "string \<Rightarrow> string \<Rightarrow> string list" where
  "leftmost_references alias [] = []"
| "leftmost_references alias (c # cs) =
     (if occurs_here alias (c # cs)
      then reference_here alias (c # cs)
           # leftmost_references alias (drop (length (reference_here alias (c # cs))) (c # cs))
      else leftmost_references alias cs)"
  by pat_completeness auto
termination
  by (relation "measure (\<lambda>(alias, s). length s)") (auto simp: reference_here_def)

definition reference_pattern :: "string \<Rightarrow> rx list" where
  "reference_pattern alias = [Lit alias, Lit ''.'', Rep (\<lambda>c. is_word c \<or> c = CHR ''_'') 1 True]"

text \<open>What the scanner records for one walked file.\<close>

definition recorded :: "filesystem \<Rightarrow> string \<Rightarrow> string \<Rightarrow> (string \<times> string) list \<Rightarrow> bool" where
  "recorded fs root file local_requires =
     (endswith file ''.lua'' \<and> local_requires \<noteq> [] \<and>
      (\<exists>lua_code. read_lua_file fs (path_join root file) = Inr lua_code \<and>
         local_requires = extract_local_requirements lua_code))"

text \<open>\<open>search_skips rs prev pre rest\<close>: in the text \<open>pre @ rest\<close>, the pattern \<open>rs\<close> matches at no
  position of \<open>pre\<close>.\<close>

fun search_skips :: "rx list \<Rightarrow> char option \<Rightarrow> string \<Rightarrow> string \<Rightarrow> bool" where
  "search_skips rs prev [] rest = True"
| "search_skips rs prev (c # cs) rest =
     (rx_match rs prev (c # cs @ rest) = None \<and> search_skips rs (Some c) cs rest)"

text \<open>The end of a block, \<^verbatim>\<open>^end\s*$\<close>, and the condition on the text after a block under
  which the whitespace \<open>tw\<close> is what \<^verbatim>\<open>\s*$\<close> takes: the source ends there, or a line break
  follows and it is the last one before the next text.\<close>

definition end_pattern :: "rx list" where
  "end_pattern = [Bol, Lit ''end'', Rep is_space 0 True, Eol]"

definition line_ends :: "string \<Rightarrow> bool" where
  "line_ends rest =
     (rest = [] \<or>
      (hd rest = CHR ''\<newline>'' \<and> CHR ''\<newline>'' \<notin> set (takeWhile is_space (tl rest)) \<and>
       takeWhile is_space (tl rest) \<noteq> tl rest))"

subsection \<open>Example inputs\<close>

definition example_tree :: filesystem where
  "example_tree =
     \<lparr>file_table =
        [''p/s/t.lua'' \<mapsto> ''local m = require \"a.b\"\<newline>m.g(1)\<newline>'',
         ''p/a/b.lua'' \<mapsto> ''function m.g(x)\<newline>  return x\<newline>end\<newline>'',
         ''idx.json'' \<mapsto> ''{}'',
         ''p/s/t_new.lua'' \<mapsto> ''old''],
      directories = {''p'', ''p/s'', ''p/a''},
      read_denied = {}, append_denied = {}, undecodable = {}\<rparr>"

definition example_index :: index where
  "example_index = [''t.lua'' \<mapsto> [(''m'', ''a.b'')]]"

definition example_walk :: "(string \<times> string list) list" where
  "example_walk = [(''p'', []), (''p/s'', [''t.lua'']), (''p/a'', [''b.lua''])]"

text \<open>Two indexes: one where \<open>D\<close> is required along two paths, one with a cycle.\<close>

definition diamond_index :: index where
  "diamond_index =
     [''A.lua'' \<mapsto> [(''B'', ''lib.B''), (''C'', ''lib.C'')],
      ''B.lua'' \<mapsto> [(''D'', ''lib.D'')],
      ''C.lua'' \<mapsto> [(''D'', ''lib.D'')],
      ''D.lua'' \<mapsto> [(''E'', ''lib.E'')]]"

definition cyclic_index :: index where
  "cyclic_index = [''A.lua'' \<mapsto> [(''B'', ''lib.B'')], ''B.lua'' \<mapsto> [(''A'', ''lib.A'')]]"

text \<open>A tree and an index on which two branches of the bundling loop meet at one path: the
  reference \<^verbatim>\<open>m.g\<close> is resolved to the file of module \<^verbatim>\<open>a.b\<close>, and the reference
  \<^verbatim>\<open>n.b\<close> has a closure whose file is the same path.\<close>

definition overwrite_tree :: filesystem where
  "overwrite_tree =
     \<lparr>file_table =
        [''p/s/t.lua'' \<mapsto> ''m.g(1)\<newline>n.b(2)\<newline>'',
         ''p/a/b.lua'' \<mapsto> ''function m.g(x)\<newline>  return x\<newline>end\<newline>'',
         ''idx.json'' \<mapsto> ''{}''],
      directories = {''p'', ''p/s'', ''p/a''},
      read_denied = {}, append_denied = {}, undecodable = {}\<rparr>"

definition overwrite_index :: index where
  "overwrite_index =
     [''t.lua'' \<mapsto> [(''m'', ''a.b''), (''n'', ''a'')],
      ''b.lua'' \<mapsto> [(''c'', ''zzz'')]]"

text \<open>A tree in which the file of the module \<^verbatim>\<open>lib.g\<close> is missing, with an index that has
  an entry for \<^verbatim>\<open>g.lua\<close>.\<close>

definition missing_tree :: filesystem where
  "missing_tree =
     \<lparr>file_table =
        [''p/s/t.lua'' \<mapsto> ''m.f(1)\<newline>'',
         ''p/lib/f.lua'' \<mapsto> ''function m.f(x)\<newline>  return g.h(x)\<newline>end\<newline>'',
         ''idx.json'' \<mapsto> ''{}''],
      directories = {''p'', ''p/s'', ''p/lib''},
      read_denied = {}, append_denied = {}, undecodable = {}\<rparr>"

definition missing_index :: index where
  "missing_index =
     [''t.lua'' \<mapsto> [(''m'', ''lib'')],
      ''f.lua'' \<mapsto> [(''g'', ''lib.g'')],
      ''g.lua'' \<mapsto> [(''h'', ''x'')]]"

definition leaf_index :: index where
  "leaf_index =
     [''t.lua'' \<mapsto> [(''m'', ''lib'')],
      ''f.lua'' \<mapsto> [(''g'', ''lib.g'')]]"

text \<open>A tree whose target declares no require statement, and one whose target has the
  three kinds of line ending.\<close>

definition plain_tree :: filesystem where
  "plain_tree =
     \<lparr>file_table = [''p/s/t.lua'' \<mapsto> ''print(1)\<newline>'', ''idx.json'' \<mapsto> ''{}''],
      directories = {''p'', ''p/s''},
      read_denied = {}, append_denied = {}, undecodable = {}\<rparr>"

definition carriage_source :: string where
  "carriage_source =
     ''print(1)'' @ [CHR 0x0D, CHR ''\<newline>''] @ ''print(2)'' @ [CHR 0x0D] @ ''print(3)\<newline>''"

definition carriage_tree :: filesystem where
  "carriage_tree =
     \<lparr>file_table = [''p/s/t.lua'' \<mapsto> carriage_source, ''idx.json'' \<mapsto> ''{}'',
                     ''p/s/t_new.lua'' \<mapsto> ''old''],
      directories = {''p'', ''p/s''},
      read_denied = {}, append_denied = {}, undecodable = {}\<rparr>"

text \<open>A tree with a module whose only require statement has the parentheses, a module
  with three require statements of which the second has them, and a module without a
  require statement.\<close>

definition paren_tree :: filesystem where
  "paren_tree =
     \<lparr>file_table =
        [''p/t.lua'' \<mapsto> ''local m = require(\"a.b\")\<newline>m.g(1)\<newline>'',
         ''p/u.lua'' \<mapsto>
           ''local a = require \"x.y\"\<newline>local b = require(\"p.q\")\<newline>local c = require 'z'\<newline>a.f(1)\<newline>'',
         ''p/v.lua'' \<mapsto> ''dofile(\"w.lua\")\<newline>'',
         ''p/notes.txt'' \<mapsto> ''local n = require \"k\"\<newline>''],
      directories = {''p''},
      read_denied = {}, append_denied = {}, undecodable = {}\<rparr>"

definition paren_walk :: "(string \<times> string list) list" where
  "paren_walk = [(''p'', [''t.lua'', ''u.lua'', ''v.lua'', ''notes.txt''])]"

section \<open>Properties\<close>

subsection \<open>The file system\<close>

lemma resolve_error_None:
  "(\<forall>d\<in>set ds. d \<in> directories fs) \<Longrightarrow> resolve_error fs ds = None"
  by (induction ds) simp_all

lemma read_lua_file_text:
  assumes "file_table fs p = Some content" and "p \<notin> directories fs"
    and "p \<notin> read_denied fs" and "p \<notin> undecodable fs"
  shows "read_lua_file fs p = Inr (universal_newlines content)"
  using assms by (simp add: read_lua_file_def)

lemma write_files_appends:
  assumes "p \<noteq> []" and "p \<notin> directories fs" and "p \<notin> append_denied fs"
    and "file_table fs p \<noteq> None \<or> (\<forall>d\<in>set (ancestors p). d \<in> directories fs)"
  shows "write_files fs p text =
           Inr (fs\<lparr>file_table := (file_table fs)(p \<mapsto> previous fs p @ text)\<rparr>)"
proof (cases "file_table fs p")
  case None
  with assms(4) have "resolve_error fs (ancestors p) = None"
    by (simp add: resolve_error_None)
  with None assms(1-3) show ?thesis
    by (simp add: write_files_def previous_def)
next
  case (Some old)
  with assms(2,3) show ?thesis
    by (simp add: write_files_def previous_def)
qed

lemma universal_newlines_plain:
  "CHR 0x0D \<notin> set s \<Longrightarrow> universal_newlines s = s"
  by (induction s rule: universal_newlines.induct) auto

lemma universal_newlines_crlf:
  "universal_newlines (a @ CHR 0x0D # CHR ''\<newline>'' # b) =
     universal_newlines a @ CHR ''\<newline>'' # universal_newlines b"
  by (induction a rule: universal_newlines.induct) auto

lemma universal_newlines_cr:
  "b = [] \<or> hd b \<noteq> CHR ''\<newline>'' \<Longrightarrow>
   universal_newlines (a @ CHR 0x0D # b) = universal_newlines a @ CHR ''\<newline>'' # universal_newlines b"
proof (induction a rule: universal_newlines.induct)
  case 1
  then show ?case by (cases b) auto
next
  case (2 c)
  then show ?case by (cases b) auto
next
  case (3 c d cs)
  then show ?case by auto
qed

lemma universal_newlines_no_cr: "CHR 0x0D \<notin> set (universal_newlines s)"
  by (induction s rule: universal_newlines.induct) auto

subsection \<open>Writes append\<close>

lemma write_files_Inr:
  assumes "write_files fs p text = Inr fs'"
  shows "file_table fs' p = Some (previous fs p @ text)"
    and "\<And>q. q \<noteq> p \<Longrightarrow> file_table fs' q = file_table fs q"
    and "directories fs' = directories fs"
  using assms by (auto simp: write_files_def previous_def split: if_splits option.splits)

lemma write_files_extends:
  assumes "write_files fs p text = Inr fs'"
  shows "extends fs fs'"
  unfolding extends_def
proof (intro conjI allI impI)
  show "directories fs' = directories fs" using write_files_Inr(3)[OF assms] .
next
  fix q old assume q: "file_table fs q = Some old"
  show "\<exists>added. file_table fs' q = Some (old @ added)"
  proof (cases "q = p")
    case True
    then show ?thesis using write_files_Inr(1)[OF assms] q by (simp add: previous_def)
  next
    case False
    then show ?thesis using write_files_Inr(2)[OF assms] q by simp
  qed
qed

lemma extends_refl: "extends fs fs"
  by (simp add: extends_def)

text \<open>
  Claim C10. \<^verbatim>\<open>write_files\<close> is the only function of the module that changes the file
  system. After a call that returns, the destination holds its previous content (empty for
  a new file) followed by the text written, and every other file is as before. The index
  written by \<^verbatim>\<open>generate_dependency_json\<close> and the bundle written by
  \<^verbatim>\<open>generate_new_combine_lua\<close> and \<^verbatim>\<open>get_target_code\<close> are written this way, so
  each of these calls leaves every existing file with its old content as a prefix of the
  new content. A call that raises has written nothing: each function writes last.
\<close>

theorem append_only:
  "(write_files fs file_path text = Inr fs1 \<longrightarrow>
      file_table fs1 file_path = Some (previous fs file_path @ text) \<and>
      (\<forall>q. q \<noteq> file_path \<longrightarrow> file_table fs1 q = file_table fs q) \<and> extends fs fs1) \<and>
   (generate_dependency_json json_dumps fs walk output_file = Inr fs2 \<longrightarrow>
      (\<exists>requirement_local. scan_walk fs [] walk = Inr requirement_local \<and>
         file_table fs2 output_file =
           Some (previous fs output_file @ json_dumps requirement_local)) \<and>
      extends fs fs2) \<and>
   (generate_new_combine_lua fs parent_folder sub_folder filename extract_depen_obj = Inr fs3 \<longrightarrow>
      (\<exists>combine_code original_code.
         file_table fs3 (write_path parent_folder sub_folder filename) =
           Some (previous fs (write_path parent_folder sub_folder filename)
                 @ write_code combine_code original_code)) \<and>
      extends fs fs3) \<and>
   (get_target_code list_set json_loads fs parent_folder sub_folder filename dependencies_file
      = Some (Inr fs4) \<longrightarrow> extends fs fs4)"
proof (intro conjI impI)
  assume w: "write_files fs file_path text = Inr fs1"
  show "file_table fs1 file_path = Some (previous fs file_path @ text)"
    using write_files_Inr(1)[OF w] .
  show "\<forall>q. q \<noteq> file_path \<longrightarrow> file_table fs1 q = file_table fs q"
    using write_files_Inr(2)[OF w] by blast
  show "extends fs fs1" using write_files_extends[OF w] .
next
  assume g: "generate_dependency_json json_dumps fs walk output_file = Inr fs2"
  then obtain d where d: "scan_walk fs [] walk = Inr d"
    and w: "write_files fs output_file (json_dumps d) = Inr fs2"
    by (auto simp: generate_dependency_json_def split: sum.splits)
  show "\<exists>requirement_local. scan_walk fs [] walk = Inr requirement_local \<and>
         file_table fs2 output_file = Some (previous fs output_file @ json_dumps requirement_local)"
    using d write_files_Inr(1)[OF w] by blast
  show "extends fs fs2" using write_files_extends[OF w] .
next
  assume g: "generate_new_combine_lua fs parent_folder sub_folder filename extract_depen_obj = Inr fs3"
  then obtain cc oc where
    w: "write_files fs (write_path parent_folder sub_folder filename) (write_code cc oc) = Inr fs3"
    by (auto simp: generate_new_combine_lua_def Let_def split: sum.splits)
  show "\<exists>combine_code original_code.
         file_table fs3 (write_path parent_folder sub_folder filename) =
           Some (previous fs (write_path parent_folder sub_folder filename)
                 @ write_code combine_code original_code)"
    using write_files_Inr(1)[OF w] by blast
  show "extends fs fs3" using write_files_extends[OF w] .
next
  assume g: "get_target_code list_set json_loads fs parent_folder sub_folder filename dependencies_file
      = Some (Inr fs4)"
  then consider "fs4 = fs"
    | obj where "generate_new_combine_lua fs parent_folder sub_folder filename obj = Inr fs4"
    by (auto simp: get_target_code_def Let_def split: sum.splits option.splits)
  then show "extends fs fs4"
  proof cases
    case 1
    then show ?thesis by (simp add: extends_refl)
  next
    case 2
    then obtain cc oc where
      w: "write_files fs (write_path parent_folder sub_folder filename) (write_code cc oc) = Inr fs4"
      by (auto simp: generate_new_combine_lua_def Let_def split: sum.splits)
    show ?thesis using write_files_extends[OF w] .
  qed
qed


theorem append_only_witness:
  "(\<exists>fs1. write_files example_tree ''idx.json'' ''x'' = Inr fs1 \<and>
          file_table fs1 ''idx.json'' = Some ''{}x'' \<and>
          (\<exists>added. file_table fs1 ''p/s/t_new.lua'' = Some (''old'' @ added))) \<and>
   (\<exists>fs2. generate_dependency_json (\<lambda>d. ''x'') example_tree example_walk ''idx.json'' = Inr fs2 \<and>
          (\<exists>added. file_table fs2 ''idx.json'' = Some (''{}'' @ added))) \<and>
   (\<exists>fs3. generate_new_combine_lua example_tree ''p'' ''s'' ''t.lua'' [] = Inr fs3 \<and>
          (\<exists>added. file_table fs3 ''p/s/t_new.lua'' = Some (''old'' @ added))) \<and>
   (\<exists>fs4. get_target_code remdups (\<lambda>s. Some example_index) example_tree ''p'' ''s'' ''t.lua''
            ''idx.json'' = Some (Inr fs4) \<and>
          (\<exists>added. file_table fs4 ''p/s/t_new.lua'' = Some (''old'' @ added)))"
proof -
  have old: "file_table example_tree ''p/s/t_new.lua'' = Some ''old''"
    and idx: "file_table example_tree ''idx.json'' = Some ''{}''"
    by (simp_all add: example_tree_def)
  have "(case write_files example_tree ''idx.json'' ''x'' of Inr fs \<Rightarrow> True | Inl e \<Rightarrow> False)"
    by code_simp
  then obtain fs1 where 1: "write_files example_tree ''idx.json'' ''x'' = Inr fs1"
    by (auto split: sum.splits)
  have "(case generate_dependency_json (\<lambda>d. ''x'') example_tree example_walk ''idx.json'' of
           Inr fs \<Rightarrow> True | Inl e \<Rightarrow> False)"
    by code_simp
  then obtain fs2 where
    2: "generate_dependency_json (\<lambda>d. ''x'') example_tree example_walk ''idx.json'' = Inr fs2"
    by (auto split: sum.splits)
  have "(case generate_new_combine_lua example_tree ''p'' ''s'' ''t.lua'' [] of
           Inr fs \<Rightarrow> True | Inl e \<Rightarrow> False)"
    by code_simp
  then obtain fs3 where 3: "generate_new_combine_lua example_tree ''p'' ''s'' ''t.lua'' [] = Inr fs3"
    by (auto split: sum.splits)
  have "(case get_target_code remdups (\<lambda>s. Some example_index) example_tree ''p'' ''s'' ''t.lua''
               ''idx.json'' of Some (Inr fs) \<Rightarrow> True | _ \<Rightarrow> False)"
    by code_simp
  then obtain fs4 where
    4: "get_target_code remdups (\<lambda>s. Some example_index) example_tree ''p'' ''s'' ''t.lua''
          ''idx.json'' = Some (Inr fs4)"
    by (cases "get_target_code remdups (\<lambda>s. Some example_index) example_tree ''p'' ''s'' ''t.lua''
          ''idx.json''") (auto split: sum.splits)
  note t = append_only[of example_tree "''idx.json''" "''x''" fs1 "\<lambda>d. ''x''" example_walk
      "''idx.json''" fs2 "''p''" "''s''" "''t.lua''" "[]" fs3 remdups "\<lambda>s. Some example_index"
      "''idx.json''" fs4]
  have wp: "write_path ''p'' ''s'' ''t.lua'' = ''p/s/t_new.lua''"
    by (simp add: write_path_def)
  from t 1 have a: "file_table fs1 ''idx.json'' = Some ''{}x''" and a': "extends example_tree fs1"
    by (simp_all add: previous_def idx)
  from t 2 have b: "extends example_tree fs2" by simp
  from t 3 have c: "extends example_tree fs3" by simp
  from t 4 have d: "extends example_tree fs4" by simp
  show ?thesis
    using 1 2 3 4 a a' b c d old idx unfolding extends_def by blast
qed

subsection \<open>The dependency closure\<close>

lemma requires_iff:
  "(m, m') \<in> requires idx \<longleftrightarrow> (\<exists>vs. idx (m @ ''.lua'') = Some vs \<and> m' \<in> fst ` set vs)"
  by (simp add: requires_def)

lemma reaches_cycle_step:
  assumes "reaches_cycle idx m"
  shows "\<exists>m'. (m, m') \<in> requires idx \<and> reaches_cycle idx m'"
proof -
  from assms obtain c where mc: "(m, c) \<in> (requires idx)\<^sup>*" and cc: "(c, c) \<in> (requires idx)\<^sup>+"
    by (auto simp: reaches_cycle_def)
  show ?thesis
  proof (cases "m = c")
    case True
    from cc obtain d where "(c, d) \<in> requires idx" and "(d, c) \<in> (requires idx)\<^sup>*"
      by (meson tranclD)
    with True cc show ?thesis unfolding reaches_cycle_def by blast
  next
    case False
    with mc obtain d where "(m, d) \<in> requires idx" and "(d, c) \<in> (requires idx)\<^sup>*"
      by (meson converse_rtranclE)
    with cc show ?thesis unfolding reaches_cycle_def by blast
  qed
qed

lemma bfs_loop_Some_no_cycle:
  assumes "bfs_loop idx q deps = Some r"
  shows "\<forall>m\<in>set q. \<not> reaches_cycle idx m"
proof (rule bfs_loop.raw_induct
    [where P = "\<lambda>idx q deps r. \<forall>m\<in>set q. \<not> reaches_cycle idx m", OF _ assms])
  fix bfs :: "index \<Rightarrow> string list \<Rightarrow> string list \<Rightarrow> string list option"
  fix idx q deps r
  assume ih: "\<And>idx q deps r. bfs idx q deps = Some r \<Longrightarrow> \<forall>m\<in>set q. \<not> reaches_cycle idx m"
  assume step: "(case q of [] \<Rightarrow> Some deps
      | temp # rest \<Rightarrow>
          (case idx (temp @ ''.lua'') of
             None \<Rightarrow> bfs idx rest deps
           | Some value_array \<Rightarrow> bfs idx (rest @ map fst value_array) (deps @ [temp]))) = Some r"
  show "\<forall>m\<in>set q. \<not> reaches_cycle idx m"
  proof (cases q)
    case Nil
    then show ?thesis by simp
  next
    case (Cons temp rest)
    show ?thesis
    proof (cases "idx (temp @ ''.lua'')")
      case None
      with step Cons have "bfs idx rest deps = Some r" by simp
      then have rest: "\<forall>m\<in>set rest. \<not> reaches_cycle idx m" by (rule ih)
      have "\<not> reaches_cycle idx temp"
        using reaches_cycle_step[of idx temp] None by (auto simp: requires_iff)
      with rest Cons show ?thesis by simp
    next
      case (Some vs)
      with step Cons have "bfs idx (rest @ map fst vs) (deps @ [temp]) = Some r" by simp
      then have ih': "\<forall>m\<in>set (rest @ map fst vs). \<not> reaches_cycle idx m" by (rule ih)
      have "\<not> reaches_cycle idx temp"
      proof
        assume "reaches_cycle idx temp"
        then obtain m' where "(temp, m') \<in> requires idx" and "reaches_cycle idx m'"
          using reaches_cycle_step by blast
        with Some ih' show False by (auto simp: requires_iff)
      qed
      with ih' Cons show ?thesis by simp
    qed
  qed
qed

lemma bfs_loop_diverges:
  assumes "m \<in> set q" and "reaches_cycle idx m"
  shows "bfs_loop idx q deps = None"
proof (cases "bfs_loop idx q deps")
  case None
  then show ?thesis .
next
  case (Some r)
  from bfs_loop_Some_no_cycle[OF Some] assms show ?thesis by blast
qed

lemma requires_finite:
  assumes "finite (dom idx)"
  shows "finite (requires idx)"
proof -
  have "requires idx \<subseteq>
        (\<Union>k\<in>dom idx. (\<lambda>m'. (take (length k - 4) k, m')) ` fst ` set (the (idx k)))"
  proof
    fix e assume e: "e \<in> requires idx"
    obtain m m' where [simp]: "e = (m, m')" by (cases e)
    from e obtain vs where vs: "idx (m @ ''.lua'') = Some vs" and m': "m' \<in> fst ` set vs"
      by (auto simp: requires_iff)
    have "m @ ''.lua'' \<in> dom idx" using vs by blast
    moreover have "(m, m') \<in> (\<lambda>m'. (take (length (m @ ''.lua'') - 4) (m @ ''.lua''), m')) `
                     fst ` set (the (idx (m @ ''.lua'')))"
      using vs m' by auto
    ultimately show "e \<in> (\<Union>k\<in>dom idx. (\<lambda>m'. (take (length k - 4) k, m')) ` fst ` set (the (idx k)))"
      by (simp only: \<open>e = (m, m')\<close>) blast
  qed
  moreover have "finite (\<Union>k\<in>dom idx. (\<lambda>m'. (take (length k - 4) k, m')) ` fst ` set (the (idx k)))"
    using assms by blast
  ultimately show ?thesis by (rule finite_subset)
qed

lemma closure_of_empty: "closure_of idx {} = {}"
  by (simp add: closure_of_def)

lemma closure_of_union: "closure_of idx (A \<union> B) = closure_of idx A \<union> closure_of idx B"
  by (auto simp: closure_of_def)

lemma closure_of_leaf:
  assumes "idx (temp @ ''.lua'') = None"
  shows "closure_of idx {temp} = {}"
proof -
  have "\<And>m. (temp, m) \<in> (requires idx)\<^sup>* \<Longrightarrow> m = temp"
    using assms by (auto elim: converse_rtranclE simp: requires_iff)
  with assms show ?thesis by (fastforce simp: closure_of_def)
qed

lemma closure_of_key:
  assumes "idx (temp @ ''.lua'') = Some vs"
  shows "closure_of idx {temp} = insert temp (closure_of idx (set (map fst vs)))"
proof (intro set_eqI iffI)
  fix m assume "m \<in> closure_of idx {temp}"
  then have r: "(temp, m) \<in> (requires idx)\<^sup>*" and k: "m @ ''.lua'' \<in> dom idx"
    by (auto simp: closure_of_def)
  from r show "m \<in> insert temp (closure_of idx (set (map fst vs)))"
  proof (cases rule: converse_rtranclE)
    case base
    then show ?thesis by simp
  next
    case (step y)
    then have "y \<in> fst ` set vs" using assms by (auto simp: requires_iff)
    with step k show ?thesis by (auto simp: closure_of_def)
  qed
next
  fix m assume "m \<in> insert temp (closure_of idx (set (map fst vs)))"
  then consider "m = temp" | "m \<in> closure_of idx (set (map fst vs))" by blast
  then show "m \<in> closure_of idx {temp}"
  proof cases
    case 1
    with assms show ?thesis by (auto simp: closure_of_def)
  next
    case 2
    then obtain s where s: "s \<in> fst ` set vs" and sm: "(s, m) \<in> (requires idx)\<^sup>*"
      and k: "m @ ''.lua'' \<in> dom idx"
      by (auto simp: closure_of_def)
    from s assms have "(temp, s) \<in> requires idx" by (auto simp: requires_iff)
    then have "(temp, m) \<in> (requires idx)\<^sup>*" using sm by (rule converse_rtrancl_into_rtrancl)
    with k show ?thesis by (auto simp: closure_of_def)
  qed
qed

lemma mult1_dequeue:
  assumes "\<forall>b\<in>set bs. (b, temp) \<in> r"
  shows "(mset (rest @ bs), mset (temp # rest)) \<in> mult1 r"
proof (rule mult1I)
  show "mset (temp # rest) = add_mset temp (mset rest)" by simp
  show "mset (rest @ bs) = mset rest + mset bs" by simp
  show "\<And>b. b \<in># mset bs \<Longrightarrow> (b, temp) \<in> r" using assms by simp
qed

lemma bfs_loop_Nil: "bfs_loop idx [] deps = Some deps"
  by (subst bfs_loop.simps) simp

lemma bfs_loop_leaf:
  "idx (temp @ ''.lua'') = None \<Longrightarrow> bfs_loop idx (temp # rest) deps = bfs_loop idx rest deps"
  by (subst bfs_loop.simps) simp

lemma bfs_loop_key:
  "idx (temp @ ''.lua'') = Some vs \<Longrightarrow>
   bfs_loop idx (temp # rest) deps = bfs_loop idx (rest @ map fst vs) (deps @ [temp])"
  by (subst bfs_loop.simps) simp

lemma closure_of_Cons:
  "closure_of idx (set (temp # rest)) = closure_of idx {temp} \<union> closure_of idx (set rest)"
  using closure_of_union[of idx "{temp}" "set rest"] by simp

lemma bfs_loop_terminates:
  assumes wf: "wf ((requires idx)\<inverse>)"
  shows "\<exists>r. bfs_loop idx q deps = Some (deps @ r) \<and> set r = closure_of idx (set q)"
proof -
  have "wf (mult1 ((requires idx)\<inverse>))" using wf by (rule wf_mult1)
  then have "\<forall>q deps. mset q = M \<longrightarrow>
      (\<exists>r. bfs_loop idx q deps = Some (deps @ r) \<and> set r = closure_of idx (set q))" for M
  proof (induction M rule: wf_induct_rule)
    case (less M)
    show ?case
    proof (intro allI impI)
      fix q deps assume qM: "mset q = M"
      show "\<exists>r. bfs_loop idx q deps = Some (deps @ r) \<and> set r = closure_of idx (set q)"
      proof (cases q)
        case Nil
        have "bfs_loop idx [] deps = Some (deps @ [])" by (simp add: bfs_loop_Nil)
        moreover have "set [] = closure_of idx (set [])" by (simp add: closure_of_empty)
        ultimately show ?thesis unfolding Nil by blast
      next
        case (Cons temp rest)
        show ?thesis
        proof (cases "idx (temp @ ''.lua'')")
          case None
          have "(mset (rest @ []), mset (temp # rest)) \<in> mult1 ((requires idx)\<inverse>)"
            by (rule mult1_dequeue) simp
          then have "(mset rest, M) \<in> mult1 ((requires idx)\<inverse>)"
            using qM Cons by simp
          from less[OF this] obtain r where
            r: "bfs_loop idx rest deps = Some (deps @ r)" "set r = closure_of idx (set rest)"
            by blast
          have "bfs_loop idx q deps = Some (deps @ r)"
            unfolding Cons using bfs_loop_leaf[of idx temp rest deps] None r(1) by simp
          moreover have "closure_of idx (set q) = closure_of idx (set rest)"
            unfolding Cons closure_of_Cons using closure_of_leaf[of idx temp] None by simp
          ultimately show ?thesis using r(2) by blast
        next
          case (Some vs)
          have "\<forall>b\<in>set (map fst vs). (b, temp) \<in> (requires idx)\<inverse>"
            using Some by (auto simp: requires_iff)
          then have "(mset (rest @ map fst vs), mset (temp # rest)) \<in> mult1 ((requires idx)\<inverse>)"
            by (rule mult1_dequeue)
          then have "(mset (rest @ map fst vs), M) \<in> mult1 ((requires idx)\<inverse>)"
            using qM Cons by simp
          from less[OF this] obtain r where
            r: "bfs_loop idx (rest @ map fst vs) (deps @ [temp]) = Some ((deps @ [temp]) @ r)"
               "set r = closure_of idx (set (rest @ map fst vs))"
            by blast
          have 1: "bfs_loop idx q deps = Some (deps @ (temp # r))"
            unfolding Cons using bfs_loop_key[of idx temp vs rest deps] Some r(1) by simp
          have "closure_of idx (set q) =
                insert temp (closure_of idx (set (map fst vs))) \<union> closure_of idx (set rest)"
            unfolding Cons closure_of_Cons using closure_of_key[of idx temp vs] Some by simp
          also have "\<dots> = insert temp (closure_of idx (set (rest @ map fst vs)))"
            by (simp add: closure_of_union Un_commute)
          finally have "set (temp # r) = closure_of idx (set q)" using r(2) by simp
          with 1 show ?thesis by blast
        qed
      qed
    qed
  qed
  then show ?thesis by blast
qed

lemma split_on_no_sep: "d \<notin> set a \<Longrightarrow> split_on d a = [a]"
  by (induction a) auto

lemma split_on_sep: "d \<notin> set a \<Longrightarrow> split_on d (a @ d # r) = a # split_on d r"
  by (induction a) auto

lemma seed_unqualified: "CHR ''.'' \<notin> set unique \<Longrightarrow> seed unique = unique"
  by (simp add: seed_def)

lemma seed_one_dot:
  assumes "CHR ''.'' \<notin> set a" "CHR ''.'' \<notin> set b"
  shows "seed (a @ ''.'' @ b) = b"
  using assms by (simp add: seed_def split_on_sep split_on_no_sep)

lemma seed_more_dots:
  assumes "CHR ''.'' \<notin> set a" "CHR ''.'' \<notin> set b"
  shows "seed (a @ ''.'' @ b @ ''.'' @ rest) = b"
  using assms by (simp add: seed_def split_on_sep)

lemma split_on_not_Nil: "split_on d s \<noteq> []"
  by (induction s) (auto split: list.splits)

lemma seed_split_length: "CHR ''.'' \<in> set unique \<Longrightarrow> 2 \<le> length (split_on CHR ''.'' unique)"
  using split_on_not_Nil[of "CHR ''.''"]
  by (induction unique) (auto split: list.splits simp: Suc_le_eq)

text \<open>
  Claim C5, amended. The walk of \<^verbatim>\<open>extract_dependencies\<close> starts from the second dotted
  segment of a qualified alias, the text between its first dot and the next dot or the end:
  for an alias with one dot that is its last segment, for \<^verbatim>\<open>a.b.c\<close> it is \<^verbatim>\<open>b\<close>. An
  alias without a dot is used unchanged.
\<close>

theorem seed_is_second_segment:
  "(CHR ''.'' \<notin> set unique \<longrightarrow> extract_dependencies unique idx = bfs_loop idx [unique] []) \<and>
   (CHR ''.'' \<notin> set a \<and> CHR ''.'' \<notin> set b \<longrightarrow>
      extract_dependencies (a @ ''.'' @ b) idx = bfs_loop idx [b] [] \<and>
      extract_dependencies (a @ ''.'' @ b @ ''.'' @ rest) idx = bfs_loop idx [b] [])"
  unfolding extract_dependencies_def
  using seed_unqualified[of unique] seed_one_dot[of a b] seed_more_dots[of a b rest]
  by simp

theorem seed_is_second_segment_witness:
  "extract_dependencies ''c'' [''c.lua'' \<mapsto> []] = bfs_loop [''c.lua'' \<mapsto> []] [''c''] [] \<and>
   extract_dependencies ''m.c'' [''c.lua'' \<mapsto> []] = bfs_loop [''c.lua'' \<mapsto> []] [''c''] [] \<and>
   extract_dependencies ''a.b.c'' [''c.lua'' \<mapsto> []] = bfs_loop [''c.lua'' \<mapsto> []] [''b''] []"
  using seed_is_second_segment[of "''c''" "[''c.lua'' \<mapsto> []]" "''m''" "''c''" "[]"]
    seed_is_second_segment[of "''c''" "[''c.lua'' \<mapsto> []]" "''a''" "''b''" "''c''"]
  by simp

text \<open>The last segment of \<^verbatim>\<open>a.b.c\<close> is \<^verbatim>\<open>c\<close>, the walk starts from \<^verbatim>\<open>b\<close>, and
  the two starts give different closures.\<close>

theorem seed_last_segment_counterexample:
  "last (split_on CHR ''.'' ''a.b.c'') = ''c'' \<and> seed ''a.b.c'' = ''b'' \<and>
   extract_dependencies ''a.b.c'' [''c.lua'' \<mapsto> []] = Some [] \<and>
   extract_dependencies ''c'' [''c.lua'' \<mapsto> []] = Some [''c'']"
  by (simp add: extract_dependencies_def seed_def bfs_loop_Nil bfs_loop_leaf bfs_loop_key)

lemma requires_diamond:
  "requires diamond_index =
     {(''A'', ''B''), (''A'', ''C''), (''B'', ''D''), (''C'', ''D''), (''D'', ''E'')}"
  unfolding requires_def diamond_index_def
  by (auto split: if_splits)

lemma acyclic_diamond: "acyclic (requires diamond_index)"
proof -
  define rank :: "string \<Rightarrow> nat" where
    "rank m = (if m = ''A'' then 4 else if m = ''B'' then 3 else if m = ''C'' then 3
               else if m = ''D'' then 2 else 1)" for m
  have "\<And>a b. (a, b) \<in> requires diamond_index \<Longrightarrow> rank b < rank a"
    unfolding requires_diamond by (auto simp: rank_def)
  then have "requires diamond_index \<subseteq> inv_image {(x, y). y < x} rank"
    by (auto simp: inv_image_def)
  moreover have "acyclic (inv_image {(x::nat, y). y < x} rank)"
  proof -
    have "wf (inv_image {(y::nat, x). y < x} rank)"
      using wf_less by (simp add: wf_inv_image  less_than_def[symmetric] )
    then have "acyclic ((inv_image {(y::nat, x). y < x} rank)\<inverse>)"
      using wf_acyclic acyclic_converse by blast
    moreover have "(inv_image {(y::nat, x). y < x} rank)\<inverse> = inv_image {(x::nat, y). y < x} rank"
      by (auto simp: inv_image_def)
    ultimately show ?thesis by simp
  qed
  ultimately show ?thesis by (rule acyclic_subset[rotated])
qed

lemma finite_dom_diamond: "finite (dom diamond_index)"
  by (simp add: diamond_index_def)

text \<open>
  Claim C1. The claim asks that the closure walk returns on every index. The loop of
  \<^verbatim>\<open>extract_dependencies\<close> keeps no record of the modules it has seen: when the start
  module reaches a cycle of the require graph, the queue never empties and the call does
  not return.
\<close>

theorem closure_walk_diverges_on_cycle:
  assumes "reaches_cycle dependencies_obj (seed unique)"
  shows "extract_dependencies unique dependencies_obj = None"
  unfolding extract_dependencies_def
  using bfs_loop_diverges[of "seed unique" "[seed unique]" dependencies_obj "[]"] assms
  by simp

lemma cyclic_index_edges:
  "(''A'', ''B'') \<in> requires cyclic_index" "(''B'', ''A'') \<in> requires cyclic_index"
  by (simp_all add: requires_iff cyclic_index_def)

lemma cyclic_index_cycle: "reaches_cycle cyclic_index ''A''"
proof -
  have "(''A'', ''A'') \<in> (requires cyclic_index)\<^sup>+"
    using cyclic_index_edges by (meson trancl.r_into_trancl trancl_trans)
  then show ?thesis unfolding reaches_cycle_def by blast
qed

theorem closure_walk_diverges_on_cycle_witness:
  "reaches_cycle cyclic_index (seed ''A'') \<and> extract_dependencies ''A'' cyclic_index = None"
proof -
  have s: "seed ''A'' = ''A''" by (simp add: seed_def)
  have c: "reaches_cycle cyclic_index (seed ''A'')" using cyclic_index_cycle by (simp add: s)
  from closure_walk_diverges_on_cycle[OF c] c show ?thesis by simp
qed

text \<open>
  Claim C2, amended. On a finite index whose require graph has no cycle,
  \<^verbatim>\<open>extract_dependencies\<close> returns, and the modules of the returned list are exactly
  the modules that have an index entry and are reachable from the start module. The list
  can name a module more than once.
\<close>

theorem closure_of_acyclic_index:
  assumes "finite (dom dependencies_obj)" and "acyclic (requires dependencies_obj)"
  shows "\<exists>dependencies. extract_dependencies unique dependencies_obj = Some dependencies \<and>
           set dependencies = closure_of dependencies_obj {seed unique}"
proof -
  have "wf ((requires dependencies_obj)\<inverse>)"
    using assms by (intro finite_acyclic_wf_converse requires_finite)
  from bfs_loop_terminates[OF this, of "[seed unique]" "[]"]
  show ?thesis by (simp add: extract_dependencies_def)
qed

theorem closure_of_acyclic_index_witness:
  "finite (dom diamond_index) \<and> acyclic (requires diamond_index) \<and>
   (\<exists>dependencies. extract_dependencies ''A'' diamond_index = Some dependencies \<and>
        set dependencies = closure_of diamond_index {''A''})"
proof -
  have s: "seed ''A'' = ''A''" by (simp add: seed_def)
  from closure_of_acyclic_index[OF finite_dom_diamond acyclic_diamond, of "''A''"]
  show ?thesis using finite_dom_diamond acyclic_diamond by (simp add: s)
qed

text \<open>In the diamond \<open>A \<rightarrow> B \<rightarrow> D\<close>, \<open>A \<rightarrow> C \<rightarrow> D\<close> the module \<open>D\<close> is listed twice.\<close>

theorem closure_duplicates_counterexample:
  "finite (dom diamond_index) \<and> acyclic (requires diamond_index) \<and>
   extract_dependencies ''A'' diamond_index = Some [''A'', ''B'', ''C'', ''D'', ''D''] \<and>
   \<not> distinct [''A'', ''B'', ''C'', ''D'', ''D'']"
proof -
  have "extract_dependencies ''A'' diamond_index = Some [''A'', ''B'', ''C'', ''D'', ''D'']"
    by (simp add: extract_dependencies_def seed_def diamond_index_def
        bfs_loop_Nil bfs_loop_leaf bfs_loop_key)
  then show ?thesis using finite_dom_diamond acyclic_diamond by simp
qed

subsection \<open>Bundling\<close>

text \<open>
  Claim C3. The claim asks that an entry of the map only grows. In the branch of
  \<^verbatim>\<open>get_target_code\<close> taken for a reference with a non-empty closure, the statement
  \<^verbatim>\<open>extract_depen_obj[target_lua_file] = []\<close> assigns without the membership test that the
  other branch and the merge loop make: here the entry for \<^verbatim>\<open>p/a/b.lua\<close> holds
  \<^verbatim>\<open>m.g\<close> after the first require of the target and is empty after the second.
\<close>

theorem closure_branch_resets_entry:
  "collect_entries remdups overwrite_tree ''p'' overwrite_index ''m.g(1)\<newline>n.b(2)\<newline>'' []
     [(''m'', ''a.b'')] = Some (Inr [(''p/a/b.lua'', [''m.g''])]) \<and>
   collect_entries remdups overwrite_tree ''p'' overwrite_index ''m.g(1)\<newline>n.b(2)\<newline>'' []
     [(''m'', ''a.b''), (''n'', ''a'')] = Some (Inr [(''p/a/b.lua'', [])])"
  by code_simp

lemma raises_FileNotFoundError:
  "(case r of Some (Inl e) \<Rightarrow> e = FileNotFoundError | _ \<Rightarrow> False) \<Longrightarrow>
   r = Some (Inl FileNotFoundError)"
  by (cases r) (auto split: sum.splits)

lemma returns_some_filesystem:
  "(case r of Some (Inr fs) \<Rightarrow> True | _ \<Rightarrow> False) \<Longrightarrow> \<exists>fs. r = Some (Inr fs)"
  by (cases r) (auto split: sum.splits)

text \<open>
  Claim C4. The claim asks that a missing dependency file is skipped at every stage.
  \<^verbatim>\<open>parse_transmitting_dependency\<close> tests \<^verbatim>\<open>os.path.exists\<close> only when the alias has no
  index entry; when it has one, the file is read without a test. With the index and the
  target in place and the file of \<^verbatim>\<open>lib.g\<close> missing, bundling raises when \<^verbatim>\<open>g.lua\<close> is a
  key of the index and returns when it is not.
\<close>

theorem missing_indexed_dependency_raises:
  "read_lua_file missing_tree ''idx.json'' = Inr ''{}'' \<and>
   read_lua_file missing_tree ''p/s/t.lua'' = Inr ''m.f(1)\<newline>'' \<and>
   path_exists missing_tree ''p/lib/g.lua'' = False \<and>
   get_target_code remdups (\<lambda>s. Some missing_index) missing_tree ''p'' ''s'' ''t.lua''
     ''idx.json'' = Some (Inl FileNotFoundError) \<and>
   (\<exists>fs'. get_target_code remdups (\<lambda>s. Some leaf_index) missing_tree ''p'' ''s'' ''t.lua''
     ''idx.json'' = Some (Inr fs'))"
proof -
  have "(case get_target_code remdups (\<lambda>s. Some missing_index) missing_tree ''p'' ''s'' ''t.lua''
           ''idx.json'' of Some (Inl e) \<Rightarrow> e = FileNotFoundError | _ \<Rightarrow> False)"
    by code_simp
  then have 1: "get_target_code remdups (\<lambda>s. Some missing_index) missing_tree ''p'' ''s''
      ''t.lua'' ''idx.json'' = Some (Inl FileNotFoundError)"
    by (rule raises_FileNotFoundError)
  have "(case get_target_code remdups (\<lambda>s. Some leaf_index) missing_tree ''p'' ''s'' ''t.lua''
           ''idx.json'' of Some (Inr fs) \<Rightarrow> True | _ \<Rightarrow> False)"
    by code_simp
  then have 2: "\<exists>fs'. get_target_code remdups (\<lambda>s. Some leaf_index) missing_tree ''p'' ''s''
      ''t.lua'' ''idx.json'' = Some (Inr fs')"
    by (rule returns_some_filesystem)
  have 3: "read_lua_file missing_tree ''idx.json'' = Inr ''{}''"
    "read_lua_file missing_tree ''p/s/t.lua'' = Inr ''m.f(1)\<newline>''"
    "path_exists missing_tree ''p/lib/g.lua'' = False"
    by (simp_all add: read_lua_file_def path_exists_def missing_tree_def)
  from 1 2 3 show ?thesis by blast
qed

lemma combine_files_empty: "combine_files fs combine_code [] = Inr combine_code"
  by simp

lemma write_path_stem:
  "CHR ''.'' \<notin> set stem \<Longrightarrow>
   write_path parent_folder sub_folder (stem @ ''.lua'') =
     parent_folder @ ''/'' @ sub_folder @ ''/'' @ stem @ ''_new.lua''"
  using split_on_sep[of "CHR ''.''" stem "''lua''"] by (simp add: write_path_def)

text \<open>
  Claim C9, amended. \<^verbatim>\<open>get_target_code\<close> returns before it writes when the target's file
  name is not a key of the index, which is the case of a target without require statements
  in an index built by the scanner: no bundle is produced. When the index lists the target
  \<^verbatim>\<open><stem>.lua\<close> with an empty list of requires, and the target can be read and the
  bundle path appended to, the text appended to \<^verbatim>\<open><stem>_new.lua\<close> is the two delimiter
  lines around an empty prologue, the source of the target as a file opened in text mode
  gives it, and a last line of four spaces; every other file is left as it was. The source
  is read with each carriage return and line feed pair, and each carriage return alone,
  turned into a line feed, so it is the stored source itself when that has no carriage
  return.
\<close>

theorem bundle_without_requires:
  assumes "read_lua_file fs dependencies_file = Inr dependencies_content"
    and "json_loads (rstrip dependencies_content) = Some dependencies_obj"
    and "destination = parent_folder @ ''/'' @ sub_folder @ ''/'' @ filename"
  shows "(dependencies_obj filename = None \<longrightarrow>
            get_target_code list_set json_loads fs parent_folder sub_folder filename
              dependencies_file = Some (Inr fs)) \<and>
         (dependencies_obj filename = Some [] \<and>
          filename = stem @ ''.lua'' \<and> CHR ''.'' \<notin> set stem \<and>
          bundle_path = parent_folder @ ''/'' @ sub_folder @ ''/'' @ stem @ ''_new.lua'' \<and>
          file_table fs destination = Some source \<and> destination \<notin> directories fs \<and>
          destination \<notin> read_denied fs \<and> destination \<notin> undecodable fs \<and>
          bundle_path \<notin> directories fs \<and> bundle_path \<notin> append_denied fs \<and>
          (file_table fs bundle_path \<noteq> None \<or> (\<forall>d\<in>set (ancestors bundle_path). d \<in> directories fs)) \<longrightarrow>
            (\<exists>fs'. get_target_code list_set json_loads fs parent_folder sub_folder filename
                     dependencies_file = Some (Inr fs') \<and>
                   file_table fs' bundle_path =
                     Some (previous fs bundle_path
                           @ ''\<newline>    ------------------import functions begin------------------\<newline>\<newline>    \<newline>\<newline>    ------------------import functions end------------------\<newline>\<newline>\<newline>    ''
                           @ universal_newlines source
                           @ ''\<newline>    '') \<and>
                   (\<forall>q. q \<noteq> bundle_path \<longrightarrow> file_table fs' q = file_table fs q))) \<and>
         (CHR 0x0D \<notin> set source \<longrightarrow> universal_newlines source = source) \<and>
         universal_newlines (a @ CHR 0x0D # CHR ''\<newline>'' # b) =
           universal_newlines a @ CHR ''\<newline>'' # universal_newlines b \<and>
         (b = [] \<or> hd b \<noteq> CHR ''\<newline>'' \<longrightarrow>
            universal_newlines (a @ CHR 0x0D # b) =
              universal_newlines a @ CHR ''\<newline>'' # universal_newlines b)"
proof (intro conjI impI)
  assume "dependencies_obj filename = None"
  with assms show "get_target_code list_set json_loads fs parent_folder sub_folder filename
      dependencies_file = Some (Inr fs)"
    by (simp add: get_target_code_def)
next
  assume a: "dependencies_obj filename = Some [] \<and>
          filename = stem @ ''.lua'' \<and> CHR ''.'' \<notin> set stem \<and>
          bundle_path = parent_folder @ ''/'' @ sub_folder @ ''/'' @ stem @ ''_new.lua'' \<and>
          file_table fs destination = Some source \<and> destination \<notin> directories fs \<and>
          destination \<notin> read_denied fs \<and> destination \<notin> undecodable fs \<and>
          bundle_path \<notin> directories fs \<and> bundle_path \<notin> append_denied fs \<and>
          (file_table fs bundle_path \<noteq> None \<or> (\<forall>d\<in>set (ancestors bundle_path). d \<in> directories fs))"
  let ?text = "''\<newline>    ------------------import functions begin------------------\<newline>\<newline>    \<newline>\<newline>    ------------------import functions end------------------\<newline>\<newline>\<newline>    ''
               @ universal_newlines source
               @ ''\<newline>    ''"
  let ?fs' = "fs\<lparr>file_table := (file_table fs)(bundle_path \<mapsto> previous fs bundle_path @ ?text)\<rparr>"
  from a have src: "file_table fs destination = Some source"
    and rd: "destination \<notin> directories fs" "destination \<notin> read_denied fs"
      "destination \<notin> undecodable fs"
    by blast+
  have r: "read_lua_file fs (parent_folder @ ''/'' @ sub_folder @ ''/'' @ filename)
             = Inr (universal_newlines source)"
    using read_lua_file_text[OF src rd] by (simp only: assms(3))
  have wp: "write_path parent_folder sub_folder filename = bundle_path"
    using a write_path_stem[of stem parent_folder sub_folder] by simp
  have ne: "bundle_path \<noteq> []" using a by simp
  from a have e: "dependencies_obj filename = Some []" by blast
  from a have bd: "bundle_path \<notin> directories fs" and ba: "bundle_path \<notin> append_denied fs"
    and bo: "file_table fs bundle_path \<noteq> None \<or> (\<forall>d\<in>set (ancestors bundle_path). d \<in> directories fs)"
    by blast+
  have w: "write_files fs bundle_path ?text = Inr ?fs'"
    using ne bd ba bo by (rule write_files_appends)
  have wc: "write_code [] (universal_newlines source) = ?text"
    by (simp add: write_code_def)
  have g: "generate_new_combine_lua fs parent_folder sub_folder filename [] = Inr ?fs'"
    using r w wp wc by (simp add: generate_new_combine_lua_def)
  have t: "get_target_code list_set json_loads fs parent_folder sub_folder filename
          dependencies_file = Some (Inr ?fs')"
    using assms(1,2) e r g by (simp add: get_target_code_def)
  have c: "file_table ?fs' bundle_path = Some (previous fs bundle_path @ ?text)"
    by simp
  have o: "\<forall>q. q \<noteq> bundle_path \<longrightarrow> file_table ?fs' q = file_table fs q"
    by simp
  from t c o show "\<exists>fs'. get_target_code list_set json_loads fs parent_folder sub_folder filename
                     dependencies_file = Some (Inr fs') \<and>
                   file_table fs' bundle_path = Some (previous fs bundle_path @ ?text) \<and>
                   (\<forall>q. q \<noteq> bundle_path \<longrightarrow> file_table fs' q = file_table fs q)"
    by blast
next
  assume "CHR 0x0D \<notin> set source"
  then show "universal_newlines source = source" by (rule universal_newlines_plain)
next
  show "universal_newlines (a @ CHR 0x0D # CHR ''\<newline>'' # b) =
           universal_newlines a @ CHR ''\<newline>'' # universal_newlines b"
    by (rule universal_newlines_crlf)
next
  assume "b = [] \<or> hd b \<noteq> CHR ''\<newline>''"
  then show "universal_newlines (a @ CHR 0x0D # b) =
              universal_newlines a @ CHR ''\<newline>'' # universal_newlines b"
    by (rule universal_newlines_cr)
qed

theorem bundle_without_requires_witness:
  "get_target_code remdups (\<lambda>s. Some Map.empty) plain_tree ''p'' ''s'' ''t.lua'' ''idx.json''
     = Some (Inr plain_tree) \<and>
   (\<exists>fs'. get_target_code remdups (\<lambda>s. Some [''t.lua'' \<mapsto> []]) plain_tree ''p'' ''s'' ''t.lua''
            ''idx.json'' = Some (Inr fs') \<and>
          file_table fs' ''p/s/t_new.lua'' =
            Some (''\<newline>    ------------------import functions begin------------------\<newline>\<newline>    \<newline>\<newline>    ------------------import functions end------------------\<newline>\<newline>\<newline>    print(1)\<newline>\<newline>    '') \<and>
          file_table fs' ''p/s/t.lua'' = Some ''print(1)\<newline>'') \<and>
   (\<exists>fs'. get_target_code remdups (\<lambda>s. Some [''t.lua'' \<mapsto> []]) carriage_tree ''p'' ''s'' ''t.lua''
            ''idx.json'' = Some (Inr fs') \<and>
          file_table fs' ''p/s/t_new.lua'' =
            Some (''old\<newline>    ------------------import functions begin------------------\<newline>\<newline>    \<newline>\<newline>    ------------------import functions end------------------\<newline>\<newline>\<newline>    print(1)\<newline>print(2)\<newline>print(3)\<newline>\<newline>    '')) \<and>
   universal_newlines ''print(1)\<newline>'' = ''print(1)\<newline>'' \<and>
   universal_newlines (''a'' @ CHR 0x0D # CHR ''\<newline>'' # ''b'') = ''a\<newline>b'' \<and>
   universal_newlines (''a'' @ CHR 0x0D # ''b'') = ''a\<newline>b''"
proof -
  have r: "read_lua_file plain_tree ''idx.json'' = Inr ''{}''"
    and rc: "read_lua_file carriage_tree ''idx.json'' = Inr ''{}''"
    by (simp_all add: read_lua_file_def plain_tree_def carriage_tree_def)
  have an: "ancestors ''p/s/t_new.lua'' = [''p'', ''p/s'']"
    by code_simp
  have un: "universal_newlines carriage_source = ''print(1)\<newline>print(2)\<newline>print(3)\<newline>''"
    by code_simp
  note g = bundle_without_requires[where fs = plain_tree and dependencies_file = "''idx.json''"
        and dependencies_content = "''{}''" and json_loads = "\<lambda>s. Some Map.empty"
        and dependencies_obj = Map.empty and filename = "''t.lua''" and list_set = remdups
        and parent_folder = "''p''" and sub_folder = "''s''" and destination = "''p/s/t.lua''",
        OF r]
  note pl = bundle_without_requires[where fs = plain_tree and dependencies_file = "''idx.json''"
        and dependencies_content = "''{}''" and json_loads = "\<lambda>s. Some [''t.lua'' \<mapsto> []]"
        and dependencies_obj = "[''t.lua'' \<mapsto> []]" and filename = "''t.lua''"
        and list_set = remdups and parent_folder = "''p''" and sub_folder = "''s''"
        and destination = "''p/s/t.lua''" and stem = "''t''" and bundle_path = "''p/s/t_new.lua''"
        and source = "''print(1)\<newline>''" and a = "''a''" and b = "''b''",
        OF r]
  note c = bundle_without_requires[where fs = carriage_tree and dependencies_file = "''idx.json''"
        and dependencies_content = "''{}''" and json_loads = "\<lambda>s. Some [''t.lua'' \<mapsto> []]"
        and dependencies_obj = "[''t.lua'' \<mapsto> []]" and filename = "''t.lua''"
        and list_set = remdups and parent_folder = "''p''" and sub_folder = "''s''"
        and destination = "''p/s/t.lua''" and stem = "''t''" and bundle_path = "''p/s/t_new.lua''"
        and source = carriage_source and a = "''a''" and b = "''b''",
        OF rc]
  have 1: "get_target_code remdups (\<lambda>s. Some Map.empty) plain_tree ''p'' ''s'' ''t.lua'' ''idx.json''
     = Some (Inr plain_tree)"
    using g by simp
  have ps: "file_table plain_tree ''p/s/t.lua'' = Some ''print(1)\<newline>''"
    and pd: "''p/s/t.lua'' \<notin> directories plain_tree" "''p/s/t.lua'' \<notin> read_denied plain_tree"
      "''p/s/t.lua'' \<notin> undecodable plain_tree" "''p/s/t_new.lua'' \<notin> directories plain_tree"
      "''p/s/t_new.lua'' \<notin> append_denied plain_tree"
    and pa: "\<forall>d\<in>set (ancestors ''p/s/t_new.lua''). d \<in> directories plain_tree"
    and pp: "previous plain_tree ''p/s/t_new.lua'' = []"
    by (simp_all add: an plain_tree_def previous_def)
  from pl ps pd pa pp obtain fs1 where
    p1: "get_target_code remdups (\<lambda>s. Some [''t.lua'' \<mapsto> []]) plain_tree ''p'' ''s'' ''t.lua''
            ''idx.json'' = Some (Inr fs1)"
    and p2: "file_table fs1 ''p/s/t_new.lua'' = Some (''\<newline>    ------------------import functions begin------------------\<newline>\<newline>    \<newline>\<newline>    ------------------import functions end------------------\<newline>\<newline>\<newline>    print(1)\<newline>\<newline>    '')"
    and p3: "\<forall>q. q \<noteq> ''p/s/t_new.lua'' \<longrightarrow> file_table fs1 q = file_table plain_tree q"
    by auto
  from p3 ps have p4: "file_table fs1 ''p/s/t.lua'' = Some ''print(1)\<newline>''"
    by simp
  have 2: "\<exists>fs'. get_target_code remdups (\<lambda>s. Some [''t.lua'' \<mapsto> []]) plain_tree ''p'' ''s'' ''t.lua''
            ''idx.json'' = Some (Inr fs') \<and>
          file_table fs' ''p/s/t_new.lua'' = Some (''\<newline>    ------------------import functions begin------------------\<newline>\<newline>    \<newline>\<newline>    ------------------import functions end------------------\<newline>\<newline>\<newline>    print(1)\<newline>\<newline>    '') \<and>
          file_table fs' ''p/s/t.lua'' = Some ''print(1)\<newline>''"
    using p1 p2 p4 by blast
  have cs: "file_table carriage_tree ''p/s/t.lua'' = Some carriage_source"
    and cd: "''p/s/t.lua'' \<notin> directories carriage_tree" "''p/s/t.lua'' \<notin> read_denied carriage_tree"
      "''p/s/t.lua'' \<notin> undecodable carriage_tree" "''p/s/t_new.lua'' \<notin> directories carriage_tree"
      "''p/s/t_new.lua'' \<notin> append_denied carriage_tree"
    and ca: "file_table carriage_tree ''p/s/t_new.lua'' \<noteq> None"
    and cp: "previous carriage_tree ''p/s/t_new.lua'' = ''old''"
    by (simp_all add: carriage_tree_def previous_def)
  from c cs cd ca cp un obtain fs2 where
    c1: "get_target_code remdups (\<lambda>s. Some [''t.lua'' \<mapsto> []]) carriage_tree ''p'' ''s'' ''t.lua''
            ''idx.json'' = Some (Inr fs2)"
    and c2: "file_table fs2 ''p/s/t_new.lua'' = Some (''old\<newline>    ------------------import functions begin------------------\<newline>\<newline>    \<newline>\<newline>    ------------------import functions end------------------\<newline>\<newline>\<newline>    print(1)\<newline>print(2)\<newline>print(3)\<newline>\<newline>    '')"
    by auto
  have 3: "\<exists>fs'. get_target_code remdups (\<lambda>s. Some [''t.lua'' \<mapsto> []]) carriage_tree ''p'' ''s'' ''t.lua''
            ''idx.json'' = Some (Inr fs') \<and>
          file_table fs' ''p/s/t_new.lua'' = Some (''old\<newline>    ------------------import functions begin------------------\<newline>\<newline>    \<newline>\<newline>    ------------------import functions end------------------\<newline>\<newline>\<newline>    print(1)\<newline>print(2)\<newline>print(3)\<newline>\<newline>    '')"
    using c1 c2 by blast
  have 4: "universal_newlines ''print(1)\<newline>'' = ''print(1)\<newline>''"
    and 5: "universal_newlines (''a'' @ CHR 0x0D # CHR ''\<newline>'' # ''b'') = ''a\<newline>b''"
    and 6: "universal_newlines (''a'' @ CHR 0x0D # ''b'') = ''a\<newline>b''"
    using pl by simp_all
  from 1 2 3 4 5 6 show ?thesis by blast
qed

text \<open>The target \<^verbatim>\<open>p/s/t.lua\<close> declares no require statement, so the scanner records no
  entry for it; after bundling there is no file \<^verbatim>\<open>p/s/t_new.lua\<close>.\<close>

theorem no_bundle_counterexample:
  "extract_local_requirements ''print(1)\<newline>'' = [] \<and>
   scan_walk plain_tree [] [(''p'', []), (''p/s'', [''t.lua''])] = Inr [] \<and>
   get_target_code remdups (\<lambda>s. Some Map.empty) plain_tree ''p'' ''s'' ''t.lua'' ''idx.json''
     = Some (Inr plain_tree) \<and>
   file_table plain_tree (write_path ''p'' ''s'' ''t.lua'') = None"
proof -
  have 1: "extract_local_requirements ''print(1)\<newline>'' = []" by code_simp
  have 2: "scan_walk plain_tree [] [(''p'', []), (''p/s'', [''t.lua''])] = Inr []" by code_simp
  have 3: "get_target_code remdups (\<lambda>s. Some Map.empty) plain_tree ''p'' ''s'' ''t.lua'' ''idx.json''
     = Some (Inr plain_tree)"
    by (simp add: get_target_code_def read_lua_file_def plain_tree_def)
  have 4: "file_table plain_tree (write_path ''p'' ''s'' ''t.lua'') = None"
    by (simp add: write_path_def plain_tree_def)
  from 1 2 3 4 show ?thesis by blast
qed

subsection \<open>The reference scanner\<close>

lemma word_or_underscore: "(\<lambda>c. is_word c \<or> c = CHR ''_'') = is_word"
  by (auto simp: is_word_def)

lemma first_some_const: "first_some (\<lambda>k. Some (g k)) (x # xs) = Some (g x)"
  by simp

lemma counts_greedy_pos: "m \<le> n \<Longrightarrow> counts True m n = n # rev [m..<n]"
  by (simp add: counts_def)

lemma counts_greedy_none: "n < m \<Longrightarrow> counts True m n = []"
  by (simp add: counts_def)

lemma take_takeWhile_length: "take (length (takeWhile P s)) s = takeWhile P s"
  by (metis append_eq_conv_conj takeWhile_dropWhile_id)

lemma rx_match_greedy_last:
  "rx_match [Rep cl m True] prev s =
     (if m \<le> length (takeWhile cl s) then Some [takeWhile cl s] else None)"
proof (cases "m \<le> length (takeWhile cl s)")
  case True
  then show ?thesis
    by (simp add: counts_greedy_pos take_takeWhile_length)
next
  case False
  then show ?thesis
    by (simp add: counts_greedy_none)
qed

lemma prefix_append_iff:
  "prefix (a @ b) s \<longleftrightarrow> prefix a s \<and> prefix b (drop (length a) s)"
proof
  assume "prefix (a @ b) s"
  then obtain r where "s = a @ b @ r" by (auto simp: prefix_def)
  then show "prefix a s \<and> prefix b (drop (length a) s)" by simp
next
  assume "prefix a s \<and> prefix b (drop (length a) s)"
  then obtain r1 r2 where "s = a @ r1" "drop (length a) s = b @ r2" by (auto simp: prefix_def)
  then show "prefix (a @ b) s" by simp
qed

lemma word_run_pos:
  "(Suc 0 \<le> length (takeWhile P s)) = (case s of [] \<Rightarrow> False | c # cs \<Rightarrow> P c)"
  by (cases s) auto

lemma reference_pattern_match:
  "rx_match [Lit alias, Lit ''.'', Rep (\<lambda>c. is_word c \<or> c = CHR ''_'') 1 True] prev s =
     (if occurs_here alias s
      then Some [alias, ''.'', takeWhile is_word (drop (length alias + 1) s)]
      else None)"
proof -
  have tail: "rx_match [Rep is_word (Suc 0) True] p t =
      (if (case t of [] \<Rightarrow> False | c # cs \<Rightarrow> is_word c) then Some [takeWhile is_word t] else None)"
    for p t
    unfolding rx_match_greedy_last using word_run_pos[of is_word t] by simp
  have dot: "rx_match [Lit ''.'', Rep is_word (Suc 0) True] p t =
      (if prefix ''.'' t \<and> (case drop (Suc 0) t of [] \<Rightarrow> False | c # cs \<Rightarrow> is_word c)
       then Some [''.'', takeWhile is_word (drop (Suc 0) t)] else None)" for p t
    by (subst rx_match.simps(2)) (simp add: tail del: rx_match.simps)
  have "rx_match [Lit alias, Lit ''.'', Rep is_word (Suc 0) True] prev s =
      (if prefix alias s \<and> prefix ''.'' (drop (length alias) s) \<and>
          (case drop (Suc 0) (drop (length alias) s) of [] \<Rightarrow> False | c # cs \<Rightarrow> is_word c)
       then Some [alias, ''.'', takeWhile is_word (drop (Suc 0) (drop (length alias) s))] else None)"
    by (subst rx_match.simps(2)) (simp add: dot del: rx_match.simps)
  then show ?thesis
    unfolding word_or_underscore occurs_here_def prefix_append_iff One_nat_def
    by (simp add: add.commute)
qed

lemma reference_pattern_no_empty_match:
  "rx_match [Lit alias, Lit ''.'', Rep (\<lambda>c. is_word c \<or> c = CHR ''_'') 1 True] prev [] = None"
  by (simp add: reference_pattern_match occurs_here_def)

lemma find_references_pattern:
  "find_references code alias = map concat (rx_findall (reference_pattern alias) None 0 code)"
  by (simp add: find_references_def reference_pattern_def)

lemma reference_match:
  "rx_match (reference_pattern alias) prev s =
     (if occurs_here alias s
      then Some [alias, ''.'', takeWhile is_word (drop (length alias + 1) s)]
      else None)"
  unfolding reference_pattern_def by (rule reference_pattern_match)

lemma occurs_here_Nil: "\<not> occurs_here alias []"
  by (simp add: occurs_here_def)

lemma findall_skip:
  "map concat (rx_findall (reference_pattern alias) prev k s) =
   map concat (rx_findall (reference_pattern alias) prev' 0 (drop k s))"
proof (induction s arbitrary: k prev prev')
  case Nil
  then show ?case by (simp add: reference_match occurs_here_Nil del: rx_match.simps)
next
  case (Cons c cs)
  show ?case
  proof (cases k)
    case 0
    then show ?thesis
      using Cons[of "Some c" 0 "Some c"]
      by (simp add: reference_match del: rx_match.simps)
  next
    case (Suc j)
    then show ?thesis using Cons[of "Some c" j prev'] by (simp del: rx_match.simps)
  qed
qed

lemma find_references_leftmost_aux:
  "map concat (rx_findall (reference_pattern al) prev 0 s) = leftmost_references al s"
proof (induction al s arbitrary: prev rule: leftmost_references.induct)
  case (1 al)
  then show ?case by (simp add: reference_match occurs_here_Nil del: rx_match.simps)
next
  case (2 al c cs)
  show ?case
  proof (cases "occurs_here al (c # cs)")
    case True
    let ?t = "reference_here al (c # cs)"
    have len: "length ?t = Suc (length ?t - 1)" by (simp add: reference_here_def)
    have cat: "concat [al, ''.'', takeWhile is_word (drop (length al + 1) (c # cs))] = ?t"
      by (simp add: reference_here_def)
    have "map concat (rx_findall (reference_pattern al) prev 0 (c # cs)) =
          ?t # map concat (rx_findall (reference_pattern al) (Some c) (length ?t - 1) cs)"
      using True cat by (simp add: reference_match del: rx_match.simps)
    also have "map concat (rx_findall (reference_pattern al) (Some c) (length ?t - 1) cs) =
               map concat (rx_findall (reference_pattern al) None 0 (drop (length ?t - 1) cs))"
      by (rule findall_skip)
    also have "drop (length ?t - 1) cs = drop (length ?t) (c # cs)"
      by (subst (2) len) simp
    also have "map concat (rx_findall (reference_pattern al) None 0 (drop (length ?t) (c # cs)))
               = leftmost_references al (drop (length ?t) (c # cs))"
      using True by (rule 2(1))
    finally show ?thesis using True by simp
  next
    case False
    then show ?thesis using 2(2)[OF False, of "Some c"]
      by (simp add: reference_match del: rx_match.simps)
  qed
qed

lemma find_references_leftmost: "find_references code alias = leftmost_references alias code"
  unfolding find_references_pattern by (rule find_references_leftmost_aux)

lemma occurs_here_contains: "occurs_here alias s \<Longrightarrow> prefix alias s"
  by (auto simp: occurs_here_def prefix_append_iff)

lemma contains_drop: "contains sub (drop n s) \<Longrightarrow> contains sub s"
proof (induction s arbitrary: n)
  case Nil
  then show ?case by simp
next
  case (Cons c cs)
  then show ?case by (cases n) auto
qed

lemma contains_prefix: "prefix sub s \<Longrightarrow> contains sub s"
  by (cases s) auto

lemma leftmost_references_contains:
  "leftmost_references al s \<noteq> [] \<Longrightarrow> contains al s"
proof (induction al s rule: leftmost_references.induct)
  case (1 al)
  then show ?case by simp
next
  case (2 al c cs)
  show ?case
  proof (cases "occurs_here al (c # cs)")
    case True
    then show ?thesis using occurs_here_contains contains_prefix by blast
  next
    case False
    with 2 show ?thesis by simp
  qed
qed

lemma occurs_here_member:
  assumes "occurs_here alias s"
  shows "takeWhile is_word (drop (length alias + 1) s) \<noteq> []"
  using assms by (auto simp: occurs_here_def split: list.splits)

lemma leftmost_references_shape:
  "r \<in> set (leftmost_references al s) \<Longrightarrow>
   \<exists>member. r = al @ ''.'' @ member \<and> member \<noteq> [] \<and> (\<forall>c\<in>set member. is_word c)"
proof (induction al s rule: leftmost_references.induct)
  case (1 al)
  then show ?case by simp
next
  case (2 al c cs)
  show ?case
  proof (cases "occurs_here al (c # cs)")
    case True
    from 2(3) True consider "r = reference_here al (c # cs)"
      | "r \<in> set (leftmost_references al
            (drop (length (reference_here al (c # cs))) (c # cs)))"
      by auto
    then show ?thesis
    proof cases
      case 1
      let ?m = "takeWhile is_word (drop (length al + 1) (c # cs))"
      have "r = al @ ''.'' @ ?m" using 1 by (simp add: reference_here_def)
      moreover have "?m \<noteq> []" using occurs_here_member[OF True] .
      moreover have "\<forall>c\<in>set ?m. is_word c" by (meson set_takeWhileD)
      ultimately show ?thesis by blast
    next
      case b: 2
      then show ?thesis using "2.IH"(1)[OF True] by blast
    qed
  next
    case False
    with 2 show ?thesis by simp
  qed
qed

text \<open>
  Claim C8, amended. \<^verbatim>\<open>find_references\<close> returns, from left to right, the occurrences of
  the alias followed by a dot and a run of word characters that do not overlap an
  occurrence returned before: the scan resumes at the end of each match. Every item is the
  alias, a dot and a non-empty run of word characters, an occurrence met twice is listed
  twice, and code in which the alias does not occur gives the empty list. On the code
  \<^verbatim>\<open>alias.foo(1)\<close>, \<^verbatim>\<open>alias.bar(2)\<close> the result is \<^verbatim>\<open>alias.foo\<close>, \<^verbatim>\<open>alias.bar\<close>.
\<close>

theorem find_references_leftmost_scan:
  "find_references code alias = leftmost_references alias code \<and>
   (\<forall>r\<in>set (find_references code alias).
       \<exists>member. r = alias @ ''.'' @ member \<and> member \<noteq> [] \<and> (\<forall>c\<in>set member. is_word c)) \<and>
   (\<not> contains alias code \<longrightarrow> find_references code alias = []) \<and>
   find_references ''alias.foo(1)\<newline>alias.bar(2)'' ''alias'' = [''alias.foo'', ''alias.bar'']"
proof (intro conjI ballI impI)
  show "find_references code alias = leftmost_references alias code"
    by (rule find_references_leftmost)
next
  fix r assume "r \<in> set (find_references code alias)"
  then show "\<exists>member. r = alias @ ''.'' @ member \<and> member \<noteq> [] \<and> (\<forall>c\<in>set member. is_word c)"
    unfolding find_references_leftmost by (rule leftmost_references_shape)
next
  assume "\<not> contains alias code"
  then show "find_references code alias = []"
    unfolding find_references_leftmost using leftmost_references_contains by blast
next
  show "find_references ''alias.foo(1)\<newline>alias.bar(2)'' ''alias'' = [''alias.foo'', ''alias.bar'']"
    by code_simp
qed

theorem find_references_leftmost_scan_witness:
  "find_references ''m.f(1) m.g m.f(2)'' ''m'' = [''m.f'', ''m.g'', ''m.f''] \<and>
   (\<exists>member. ''m.g'' = ''m'' @ ''.'' @ member \<and> member \<noteq> [] \<and> list_all is_word member) \<and>
   \<not> contains ''z'' ''m.f(1)'' \<and>
   find_references ''m.f(1)'' ''z'' = []"
proof -
  note a = find_references_leftmost_scan[of "''m.f(1) m.g m.f(2)''" "''m''"]
  note b = find_references_leftmost_scan[of "''m.f(1)''" "''z''"]
  have l: "leftmost_references ''m'' ''m.f(1) m.g m.f(2)'' = [''m.f'', ''m.g'', ''m.f'']"
    by code_simp
  have 1: "find_references ''m.f(1) m.g m.f(2)'' ''m'' = [''m.f'', ''m.g'', ''m.f'']"
    using a l by simp
  have "''m.g'' \<in> set (find_references ''m.f(1) m.g m.f(2)'' ''m'')"
    by (simp add: 1)
  with a have 2: "\<exists>member. ''m.g'' = ''m'' @ ''.'' @ member \<and> member \<noteq> [] \<and> list_all is_word member"
    unfolding list_all_iff by blast
  have 3: "\<not> contains ''z'' ''m.f(1)''" by simp
  with b have 4: "find_references ''m.f(1)'' ''z'' = []" by blast
  from 1 2 3 4 show ?thesis by blast
qed

text \<open>In \<^verbatim>\<open>a.a.b\<close> the alias \<^verbatim>\<open>a\<close> is followed by a dot and an identifier at positions 0
  and 2; the second occurrence starts inside the first match and is not returned.\<close>

theorem find_references_overlap_counterexample:
  "all_references ''a'' ''a.a.b'' = [''a.a'', ''a.b''] \<and>
   find_references ''a.a.b'' ''a'' = [''a.a'']"
  by code_simp

subsection \<open>The source scanner\<close>

lemma rx_match_Lit:
  "rx_match rs (prev_after prev l) s = Some segs \<Longrightarrow>
   rx_match (Lit l # rs) prev (l @ s) = Some (l # segs)"
  by simp

lemma rx_match_Cls:
  "cl x \<Longrightarrow> rx_match rs (Some x) s = Some segs \<Longrightarrow>
   rx_match (Cls cl # rs) prev ([x] @ s) = Some ([x] # segs)"
  by simp

lemma takeWhile_run:
  assumes "\<forall>c\<in>set t. P c" and "r = [] \<or> \<not> P (hd r)"
  shows "takeWhile P (t @ r) = t"
  using assms by (cases r) (auto simp: takeWhile_append2)

lemma rx_match_greedy_run:
  assumes run: "\<forall>c\<in>set t. cl c" "r = [] \<or> \<not> cl (hd r)"
    and m: "m \<le> length t"
    and rest: "rx_match rs (prev_after prev t) r = Some segs"
  shows "rx_match (Rep cl m True # rs) prev (t @ r) = Some (t # segs)"
proof -
  have "takeWhile cl (t @ r) = t" using run by (rule takeWhile_run)
  then have "counts True m (length (takeWhile cl (t @ r))) = length t # rev [m..<length t]"
    using m by (simp add: counts_greedy_pos)
  then show ?thesis using rest by simp
qed

lemma rx_findall_skip_all:
  "rx_findall rs prev (length s) s =
     (case rx_match rs (prev_after prev s) [] of Some segs \<Rightarrow> [segs] | None \<Rightarrow> [])"
proof (induction s arbitrary: prev)
  case Nil
  then show ?case by (simp add: prev_after_def)
next
  case (Cons c cs)
  have "prev_after (Some c) cs = prev_after prev (c # cs)" by (simp add: prev_after_def)
  then show ?case using Cons[of "Some c"] by simp
qed

lemma rx_findall_whole:
  assumes "rx_match rs prev s = Some segs" and "concat segs = s" and "s \<noteq> []"
    and "rx_match rs (prev_after prev s) [] = None"
  shows "rx_findall rs prev 0 s = [segs]"
proof -
  obtain c cs where s: "s = c # cs" using assms(3) by (cases s) auto
  have "prev_after (Some c) cs = prev_after prev s" by (simp add: prev_after_def s)
  then have "rx_findall rs (Some c) (length cs) cs = []"
    using rx_findall_skip_all[of rs "Some c" cs] assms(4) by simp
  then show ?thesis using assms(1,2) unfolding s
    by (simp del: rx_match.simps)
qed

lemma word_not_space: "is_word c \<Longrightarrow> \<not> is_space c"
  by (auto simp: is_word_def is_space_def Let_def)

lemma quote_not_space: "is_quote c \<Longrightarrow> \<not> is_space c"
  by (auto simp: is_quote_def is_space_def)

lemma quote_not_word: "is_quote c \<Longrightarrow> \<not> (is_word c \<or> c = CHR ''.'')"
  by (auto simp: is_quote_def is_word_def)

lemma require_pattern_match:
  assumes ws: "ws1 \<noteq> []" "\<forall>c\<in>set ws1. is_space c" "\<forall>c\<in>set ws2. is_space c"
      "\<forall>c\<in>set ws3. is_space c" "\<forall>c\<in>set ws4. is_space c"
    and al: "name \<noteq> []" "\<forall>c\<in>set name. is_word c"
    and pa: "path \<noteq> []" "\<forall>c\<in>set path. is_word c \<or> c = CHR ''.''"
    and q: "is_quote q1" "is_quote q2"
  shows "rx_match require_pattern prev
           (''local'' @ ws1 @ name @ ws2 @ ''='' @ ws3 @ ''require'' @ ws4 @ [q1] @ path @ [q2] @ post) =
         Some [''local'', ws1, name, ws2, ''='', ws3, ''require'', ws4, [q1], path, [q2]]"
proof -
  have m11: "rx_match [Cls is_quote] p ([q2] @ post) = Some [[q2]]" for p
    using q by simp
  have m10: "rx_match [Rep (\<lambda>c. is_word c \<or> c = CHR ''.'') 1 True, Cls is_quote] p (path @ [q2] @ post)
      = Some [path, [q2]]" for p
    by (rule rx_match_greedy_run[OF _ _ _ m11])
      (use pa quote_not_word[OF q(2)] in \<open>auto simp: Suc_le_eq\<close>)
  have m9: "rx_match [Cls is_quote, Rep (\<lambda>c. is_word c \<or> c = CHR ''.'') 1 True, Cls is_quote] p
      ([q1] @ path @ [q2] @ post) = Some [[q1], path, [q2]]" for p
    using q(1) m10 by (rule rx_match_Cls)
  have m8: "rx_match [Rep is_space 0 True, Cls is_quote,
        Rep (\<lambda>c. is_word c \<or> c = CHR ''.'') 1 True, Cls is_quote] p
      (ws4 @ [q1] @ path @ [q2] @ post) = Some [ws4, [q1], path, [q2]]" for p
    by (rule rx_match_greedy_run[OF _ _ _ m9])
      (use ws(5) quote_not_space[OF q(1)] in auto)
  have m7: "rx_match [Lit ''require'', Rep is_space 0 True, Cls is_quote,
        Rep (\<lambda>c. is_word c \<or> c = CHR ''.'') 1 True, Cls is_quote] p
      (''require'' @ ws4 @ [q1] @ path @ [q2] @ post) = Some [''require'', ws4, [q1], path, [q2]]" for p
    by (rule rx_match_Lit) (rule m8)
  have m6: "rx_match [Rep is_space 0 True, Lit ''require'', Rep is_space 0 True, Cls is_quote,
        Rep (\<lambda>c. is_word c \<or> c = CHR ''.'') 1 True, Cls is_quote] p
      (ws3 @ ''require'' @ ws4 @ [q1] @ path @ [q2] @ post) =
      Some [ws3, ''require'', ws4, [q1], path, [q2]]" for p
    by (rule rx_match_greedy_run[OF _ _ _ m7])
      (use ws(4) in \<open>auto simp: is_space_def\<close>)
  have m5: "rx_match [Lit ''='', Rep is_space 0 True, Lit ''require'', Rep is_space 0 True,
        Cls is_quote, Rep (\<lambda>c. is_word c \<or> c = CHR ''.'') 1 True, Cls is_quote] p
      (''='' @ ws3 @ ''require'' @ ws4 @ [q1] @ path @ [q2] @ post) =
      Some [''='', ws3, ''require'', ws4, [q1], path, [q2]]" for p
    by (rule rx_match_Lit) (rule m6)
  have m4: "rx_match [Rep is_space 0 True, Lit ''='', Rep is_space 0 True, Lit ''require'',
        Rep is_space 0 True, Cls is_quote, Rep (\<lambda>c. is_word c \<or> c = CHR ''.'') 1 True,
        Cls is_quote] p
      (ws2 @ ''='' @ ws3 @ ''require'' @ ws4 @ [q1] @ path @ [q2] @ post) =
      Some [ws2, ''='', ws3, ''require'', ws4, [q1], path, [q2]]" for p
    by (rule rx_match_greedy_run[OF _ _ _ m5])
      (use ws(3) in \<open>auto simp: is_space_def\<close>)
  have nw: "\<not> is_word (hd (ws2 @ ''='' @ ws3 @ ''require'' @ ws4 @ [q1] @ path @ [q2] @ post))"
  proof (cases ws2)
    case Nil
    then show ?thesis by (simp add: is_word_def)
  next
    case (Cons c cs)
    then show ?thesis using ws(3) word_not_space by auto
  qed
  have m3: "rx_match [Rep is_word 1 True, Rep is_space 0 True, Lit ''='', Rep is_space 0 True,
        Lit ''require'', Rep is_space 0 True, Cls is_quote,
        Rep (\<lambda>c. is_word c \<or> c = CHR ''.'') 1 True, Cls is_quote] p
      (name @ ws2 @ ''='' @ ws3 @ ''require'' @ ws4 @ [q1] @ path @ [q2] @ post) =
      Some [name, ws2, ''='', ws3, ''require'', ws4, [q1], path, [q2]]" for p
    by (rule rx_match_greedy_run[OF _ _ _ m4])
      (use al nw in \<open>auto simp: Suc_le_eq\<close>)
  have ns: "\<not> is_space (hd (name @ ws2 @ ''='' @ ws3 @ ''require'' @ ws4 @ [q1] @ path @ [q2] @ post))"
    using al word_not_space by (cases name) auto
  have m2: "rx_match [Rep is_space 1 True, Rep is_word 1 True, Rep is_space 0 True, Lit ''='',
        Rep is_space 0 True, Lit ''require'', Rep is_space 0 True, Cls is_quote,
        Rep (\<lambda>c. is_word c \<or> c = CHR ''.'') 1 True, Cls is_quote] p
      (ws1 @ name @ ws2 @ ''='' @ ws3 @ ''require'' @ ws4 @ [q1] @ path @ [q2] @ post) =
      Some [ws1, name, ws2, ''='', ws3, ''require'', ws4, [q1], path, [q2]]" for p
    by (rule rx_match_greedy_run[OF _ _ _ m3])
      (use ws(1,2) ns in \<open>auto simp: Suc_le_eq\<close>)
  show ?thesis
    unfolding require_pattern_def
    by (rule rx_match_Lit) (rule m2)
qed


lemma rx_findall_nonempty:
  assumes "rx_match rs (prev_after prev (take i s)) (drop i s) = Some segs"
    and "k \<le> i" and "i \<le> length s"
  shows "rx_findall rs prev k s \<noteq> []"
  using assms
proof (induction s arbitrary: prev k i)
  case Nil
  then show ?case by (simp add: prev_after_def del: rx_match.simps)
next
  case (Cons c cs)
  show ?case
  proof (cases "i")
    case 0
    with Cons.prems show ?thesis by (simp add: prev_after_def del: rx_match.simps)
  next
    case (Suc i')
    have p: "prev_after (Some c) (take i' cs) = prev_after prev (take i (c # cs))"
      using Suc by (simp add: prev_after_def)
    have m: "rx_match rs (prev_after (Some c) (take i' cs)) (drop i' cs) = Some segs"
      using Cons.prems(1) Suc p by simp
    have l: "i' \<le> length cs" using Cons.prems(3) Suc by simp
    show ?thesis
    proof (cases "0 < k")
      case True
      then have "k - 1 \<le> i'" using Cons.prems(2) Suc by simp
      from Cons.IH[OF m this l] True show ?thesis by (simp del: rx_match.simps)
    next
      case False
      show ?thesis
      proof (cases "rx_match rs prev (c # cs)")
        case None
        from Cons.IH[OF m _ l, of 0] None False show ?thesis by (simp del: rx_match.simps)
      next
        case (Some a)
        with False show ?thesis by (simp del: rx_match.simps)
      qed
    qed
  qed
qed

lemma extract_local_requirements_within:
  assumes ws: "ws1 \<noteq> []" "\<forall>c\<in>set ws1. is_space c" "\<forall>c\<in>set ws2. is_space c"
      "\<forall>c\<in>set ws3. is_space c" "\<forall>c\<in>set ws4. is_space c"
    and al: "name \<noteq> []" "\<forall>c\<in>set name. is_word c"
    and pa: "path \<noteq> []" "\<forall>c\<in>set path. is_word c \<or> c = CHR ''.''"
    and q: "is_quote q1" "is_quote q2"
  shows "extract_local_requirements
           (pre @ ''local'' @ ws1 @ name @ ws2 @ ''='' @ ws3 @ ''require'' @ ws4 @ [q1] @ path
              @ [q2] @ post) \<noteq> []"
proof -
  let ?t = "''local'' @ ws1 @ name @ ws2 @ ''='' @ ws3 @ ''require'' @ ws4 @ [q1] @ path @ [q2] @ post"
  have "rx_match require_pattern (prev_after None pre) ?t
      = Some [''local'', ws1, name, ws2, ''='', ws3, ''require'', ws4, [q1], path, [q2]]"
    using assms by (rule require_pattern_match)
  then have "rx_match require_pattern (prev_after None (take (length pre) (pre @ ?t)))
      (drop (length pre) (pre @ ?t))
      = Some [''local'', ws1, name, ws2, ''='', ws3, ''require'', ws4, [q1], path, [q2]]"
    by simp
  then have "rx_findall require_pattern None 0 (pre @ ?t) \<noteq> []"
    by (rule rx_findall_nonempty) simp_all
  then show ?thesis by (simp add: extract_local_requirements_def)
qed

lemma require_pattern_no_empty_match: "rx_match require_pattern prev [] = None"
  by (simp add: require_pattern_def)

lemma extract_local_requirements_statement:
  assumes ws: "ws1 \<noteq> []" "\<forall>c\<in>set ws1. is_space c" "\<forall>c\<in>set ws2. is_space c"
      "\<forall>c\<in>set ws3. is_space c" "\<forall>c\<in>set ws4. is_space c"
    and al: "name \<noteq> []" "\<forall>c\<in>set name. is_word c"
    and pa: "path \<noteq> []" "\<forall>c\<in>set path. is_word c \<or> c = CHR ''.''"
    and q: "is_quote q1" "is_quote q2"
  shows "extract_local_requirements
           (''local'' @ ws1 @ name @ ws2 @ ''='' @ ws3 @ ''require'' @ ws4 @ [q1] @ path @ [q2])
         = [(name, path)]"
proof -
  let ?s = "''local'' @ ws1 @ name @ ws2 @ ''='' @ ws3 @ ''require'' @ ws4 @ [q1] @ path @ [q2]"
  let ?segs = "[''local'', ws1, name, ws2, ''='', ws3, ''require'', ws4, [q1], path, [q2]]"
  have "rx_match require_pattern None (?s @ []) = Some ?segs"
    using require_pattern_match[OF assms, of None "[]"] by simp
  then have "rx_match require_pattern None ?s = Some ?segs" by simp
  moreover have "concat ?segs = ?s" by simp
  moreover have "?s \<noteq> []" by simp
  ultimately have "rx_findall require_pattern None 0 ?s = [?segs]"
    using require_pattern_no_empty_match by (rule rx_findall_whole)
  then show ?thesis by (simp add: extract_local_requirements_def)
qed

lemma map_of_replace:
  "map_of (map (\<lambda>(k', v'). if k' = k then (k', v) else (k', v')) d) x =
     (if x = k \<and> k \<in> fst ` set d then Some v else map_of d x)"
proof (induction d)
  case Nil
  then show ?case by simp
next
  case (Cons a d)
  obtain k' v' where a: "a = (k', v')" by (cases a)
  show ?case using Cons unfolding a by (cases "k' = k") (force split: if_splits)+
qed

lemma map_of_dict_set: "map_of (dict_set d k v) = (map_of d)(k \<mapsto> v)"
proof (cases "k \<in> fst ` set d")
  case False
  then have "map_of d k = None" by (simp add: map_of_eq_None_iff)
  then show ?thesis using False
    by (auto simp: dict_set_def map_add_def fun_eq_iff split: option.splits)
next
  case True
  then show ?thesis
    by (auto simp: dict_set_def fun_eq_iff map_of_replace)
qed

lemma scan_files_sound:
  assumes "scan_files fs root d files = Inr d'" and "map_of d' file = Some reqs"
  shows "map_of d file = Some reqs \<or> (file \<in> set files \<and> recorded fs root file reqs)"
  using assms
proof (induction files arbitrary: d)
  case Nil
  then show ?case by simp
next
  case (Cons f fs')
  show ?case
  proof (cases "endswith f ''.lua''")
    case False
    with Cons.prems have "scan_files fs root d fs' = Inr d'" by simp
    from Cons.IH[OF this Cons.prems(2)] show ?thesis by auto
  next
    case True
    with Cons.prems(1) obtain code where code: "read_lua_file fs (path_join root f) = Inr code"
      by (auto split: sum.splits)
    show ?thesis
    proof (cases "extract_local_requirements code = []")
      case True
      with Cons.prems(1) \<open>endswith f ''.lua''\<close> code have "scan_files fs root d fs' = Inr d'"
        by simp
      from Cons.IH[OF this Cons.prems(2)] show ?thesis by auto
    next
      case False
      with Cons.prems(1) \<open>endswith f ''.lua''\<close> code
      have "scan_files fs root (dict_set d f (extract_local_requirements code)) fs' = Inr d'"
        by (simp add: Let_def)
      from Cons.IH[OF this Cons.prems(2)]
      consider "map_of (dict_set d f (extract_local_requirements code)) file = Some reqs"
        | "file \<in> set fs' \<and> recorded fs root file reqs" by blast
      then show ?thesis
      proof cases
        case 1
        then show ?thesis
          using False \<open>endswith f ''.lua''\<close> code
          by (auto simp: map_of_dict_set recorded_def split: if_splits)
      next
        case 2
        then show ?thesis by auto
      qed
    qed
  qed
qed

lemma scan_files_keeps:
  assumes "scan_files fs root d files = Inr d'" and "map_of d file \<noteq> None"
  shows "map_of d' file \<noteq> None"
  using assms
proof (induction files arbitrary: d)
  case Nil
  then show ?case by simp
next
  case (Cons f fs')
  from Cons.prems(1) consider "scan_files fs root d fs' = Inr d'"
    | reqs where "scan_files fs root (dict_set d f reqs) fs' = Inr d'"
    by (auto simp: Let_def split: if_splits sum.splits)
  then show ?case
  proof cases
    case 1
    from Cons.IH[OF this Cons.prems(2)] show ?thesis .
  next
    case 2
    have "map_of (dict_set d f reqs) file \<noteq> None"
      using Cons.prems(2) by (simp add: map_of_dict_set)
    from Cons.IH[OF 2 this] show ?thesis .
  qed
qed

lemma scan_files_complete:
  assumes "scan_files fs root d files = Inr d'" and "file \<in> set files"
    and "recorded fs root file reqs"
  shows "map_of d' file \<noteq> None"
  using assms
proof (induction files arbitrary: d)
  case Nil
  then show ?case by simp
next
  case (Cons f fs')
  show ?case
  proof (cases "file = f")
    case True
    from Cons.prems(3) True obtain code where
      e: "endswith f ''.lua''" and c: "read_lua_file fs (path_join root f) = Inr code"
      and r: "extract_local_requirements code \<noteq> []"
      by (auto simp: recorded_def)
    with Cons.prems(1)
    have s: "scan_files fs root (dict_set d f (extract_local_requirements code)) fs' = Inr d'"
      by (simp add: Let_def)
    have "map_of (dict_set d f (extract_local_requirements code)) f \<noteq> None"
      by (simp add: map_of_dict_set)
    from scan_files_keeps[OF s this] True show ?thesis by simp
  next
    case False
    with Cons.prems(2) have m: "file \<in> set fs'" by simp
    from Cons.prems(1) consider "scan_files fs root d fs' = Inr d'"
      | reqs' where "scan_files fs root (dict_set d f reqs') fs' = Inr d'"
      by (auto simp: Let_def split: if_splits sum.splits)
    then show ?thesis
    proof cases
      case 1
      from Cons.IH[OF this m Cons.prems(3)] show ?thesis .
    next
      case 2
      from Cons.IH[OF this m Cons.prems(3)] show ?thesis .
    qed
  qed
qed

lemma scan_walk_sound:
  assumes "scan_walk fs d walk = Inr d'" and "map_of d' file = Some reqs"
  shows "map_of d file = Some reqs \<or>
         (\<exists>root files. (root, files) \<in> set walk \<and> file \<in> set files \<and> recorded fs root file reqs)"
  using assms
proof (induction walk arbitrary: d)
  case Nil
  then show ?case by simp
next
  case (Cons rf walk)
  obtain root files where rf: "rf = (root, files)" by (cases rf)
  from Cons.prems(1) rf obtain d1 where
    1: "scan_files fs root d files = Inr d1" and 2: "scan_walk fs d1 walk = Inr d'"
    by (auto split: sum.splits)
  from Cons.IH[OF 2 Cons.prems(2)]
  consider "map_of d1 file = Some reqs"
    | "\<exists>root files. (root, files) \<in> set walk \<and> file \<in> set files \<and> recorded fs root file reqs"
    by blast
  then show ?case
  proof cases
    case a: 1
    from scan_files_sound[OF 1 a] show ?thesis using rf by auto
  next
    case 2
    then show ?thesis by auto
  qed
qed

lemma scan_walk_keeps:
  assumes "scan_walk fs d walk = Inr d'" and "map_of d file \<noteq> None"
  shows "map_of d' file \<noteq> None"
  using assms
proof (induction walk arbitrary: d)
  case Nil
  then show ?case by simp
next
  case (Cons rf walk)
  obtain root files where rf: "rf = (root, files)" by (cases rf)
  from Cons.prems(1) rf obtain d1 where
    1: "scan_files fs root d files = Inr d1" and 2: "scan_walk fs d1 walk = Inr d'"
    by (auto split: sum.splits)
  from Cons.IH[OF 2 scan_files_keeps[OF 1 Cons.prems(2)]] show ?case .
qed

lemma scan_walk_complete:
  assumes "scan_walk fs d walk = Inr d'" and "(root, files) \<in> set walk" and "file \<in> set files"
    and "recorded fs root file reqs"
  shows "map_of d' file \<noteq> None"
  using assms
proof (induction walk arbitrary: d)
  case Nil
  then show ?case by simp
next
  case (Cons rf walk)
  obtain root' files' where rf: "rf = (root', files')" by (cases rf)
  from Cons.prems(1) rf obtain d1 where
    1: "scan_files fs root' d files' = Inr d1" and 2: "scan_walk fs d1 walk = Inr d'"
    by (auto split: sum.splits)
  show ?case
  proof (cases "(root, files) = rf")
    case True
    with rf 1 have "scan_files fs root d files = Inr d1" by simp
    from scan_files_complete[OF this Cons.prems(3,4)] have "map_of d1 file \<noteq> None" .
    from scan_walk_keeps[OF 2 this] show ?thesis .
  next
    case False
    with Cons.prems(2) have "(root, files) \<in> set walk" by auto
    from Cons.IH[OF 2 this Cons.prems(3,4)] show ?thesis .
  qed
qed

text \<open>
  Claim C6. The claim asks that every file with a statement of the shape
  \<^verbatim>\<open>local <alias> = require("<dotted.path>")\<close> is recorded with the list of its pairs.
  The pattern of \<^verbatim>\<open>extract_local_requirements\<close>, a function documented as extracting
  the local require statements of the code, asks for a quote after the word
  \<^verbatim>\<open>require\<close> and optional whitespace, so a statement with the parentheses is not a
  match. In the tree below \<^verbatim>\<open>t.lua\<close>, whose only statement has them, gets no entry,
  and \<^verbatim>\<open>u.lua\<close> is recorded with two of its three statements; the statement of
  \<^verbatim>\<open>t.lua\<close> written without the parentheses is extracted. The index that
  \<^verbatim>\<open>generate_dependency_json\<close> serialises and appends to the output file has the one
  entry for \<^verbatim>\<open>u.lua\<close>.
\<close>

theorem parenthesised_require_not_recorded:
  "read_lua_file paren_tree ''p/t.lua'' = Inr ''local m = require(\"a.b\")\<newline>m.g(1)\<newline>'' \<and>
   extract_local_requirements ''local m = require(\"a.b\")\<newline>m.g(1)\<newline>'' = [] \<and>
   extract_local_requirements ''local m = require \"a.b\"\<newline>m.g(1)\<newline>'' = [(''m'', ''a.b'')] \<and>
   extract_local_requirements
     ''local a = require \"x.y\"\<newline>local b = require(\"p.q\")\<newline>local c = require 'z'\<newline>a.f(1)\<newline>''
     = [(''a'', ''x.y''), (''c'', ''z'')] \<and>
   scan_walk paren_tree [] paren_walk = Inr [(''u.lua'', [(''a'', ''x.y''), (''c'', ''z'')])] \<and>
   generate_dependency_json json_dumps paren_tree paren_walk ''p/idx.json'' =
     Inr (paren_tree\<lparr>file_table := (file_table paren_tree)(''p/idx.json'' \<mapsto>
            json_dumps [(''u.lua'', [(''a'', ''x.y''), (''c'', ''z'')])])\<rparr>)"
proof -
  have 1: "read_lua_file paren_tree ''p/t.lua'' = Inr ''local m = require(\"a.b\")\<newline>m.g(1)\<newline>''"
    by code_simp
  have 2: "extract_local_requirements ''local m = require(\"a.b\")\<newline>m.g(1)\<newline>'' = []"
    by code_simp
  have 3: "extract_local_requirements ''local m = require \"a.b\"\<newline>m.g(1)\<newline>'' = [(''m'', ''a.b'')]"
    by code_simp
  have 4: "extract_local_requirements
     ''local a = require \"x.y\"\<newline>local b = require(\"p.q\")\<newline>local c = require 'z'\<newline>a.f(1)\<newline>''
     = [(''a'', ''x.y''), (''c'', ''z'')]"
    by code_simp
  have 5: "scan_walk paren_tree [] paren_walk = Inr [(''u.lua'', [(''a'', ''x.y''), (''c'', ''z'')])]"
    by code_simp
  have an: "ancestors ''p/idx.json'' = [''p'']" by code_simp
  have pv: "previous paren_tree ''p/idx.json'' = []"
    by (simp add: previous_def paren_tree_def)
  have w: "write_files paren_tree ''p/idx.json'' content =
             Inr (paren_tree\<lparr>file_table := (file_table paren_tree)(''p/idx.json'' \<mapsto> content)\<rparr>)"
    for content
    using write_files_appends[of "''p/idx.json''" paren_tree content]
    by (simp add: an pv) (simp add: paren_tree_def)
  have 6: "generate_dependency_json json_dumps paren_tree paren_walk ''p/idx.json'' =
     Inr (paren_tree\<lparr>file_table := (file_table paren_tree)(''p/idx.json'' \<mapsto>
            json_dumps [(''u.lua'', [(''a'', ''x.y''), (''c'', ''z'')])])\<rparr>)"
    by (simp add: generate_dependency_json_def 5 w)
  from 1 2 3 4 5 6 show ?thesis by blast
qed

subsection \<open>The function extractor\<close>

lemma first_some_append:
  "first_some f (xs @ ys) = (case first_some f xs of Some y \<Rightarrow> Some y | None \<Rightarrow> first_some f ys)"
  by (induction xs) (auto split: option.splits)

lemma first_some_None: "(\<forall>x\<in>set xs. f x = None) \<Longrightarrow> first_some f xs = None"
  by (induction xs) auto

lemma first_some_found:
  assumes "\<forall>x\<in>set xs. f x = None" and "f y = Some v"
  shows "first_some f (xs @ y # ys) = Some v"
  using assms by (simp add: first_some_append first_some_None)

lemma first_some_cases:
  assumes "\<forall>x\<in>set xs. f x = None \<or> (\<exists>y. f x = Some y \<and> Q y)"
    and "\<exists>x\<in>set xs. f x \<noteq> None"
  shows "\<exists>y. first_some f xs = Some y \<and> Q y"
  using assms
proof (induction xs)
  case Nil
  then show ?case by simp
next
  case (Cons x xs)
  show ?case
  proof (cases "f x")
    case None
    with Cons.prems have "\<exists>x\<in>set xs. f x \<noteq> None" by auto
    with Cons None show ?thesis by auto
  next
    case (Some y)
    with Cons.prems(1) show ?thesis by auto
  qed
qed

lemma first_some_Some:
  "first_some f xs = Some y \<Longrightarrow> \<exists>x\<in>set xs. f x = Some y"
  by (induction xs) (auto split: option.splits)

lemma counts_lazy: "counts False m n = [m..<Suc n]"
  by (simp add: counts_def)

lemma upt_Suc_split:
  assumes "m \<le> j" "j \<le> n"
  shows "[m..<Suc n] = [m..<j] @ j # [Suc j..<Suc n]"
proof -
  obtain d where d: "Suc n = j + d" using assms(2) by (metis le_Suc_eq le_iff_add)
  have "[m..<j + d] = [m..<j] @ [j..<j + d]" using assms(1) by (rule upt_add_eq_append)
  moreover have "[j..<Suc n] = j # [Suc j..<Suc n]" using assms(2) by (simp add: upt_conv_Cons)
  ultimately show ?thesis using d by simp
qed

lemma takeWhile_True: "takeWhile (\<lambda>c. True) s = s"
  by (induction s) auto

lemma rx_match_lazy_at:
  assumes "\<forall>k<j. rx_match rs (prev_after prev (take k s)) (drop k s) = None"
    and "rx_match rs (prev_after prev (take j s)) (drop j s) = Some segs"
    and "j \<le> length s"
  shows "rx_match (Rep (\<lambda>c. True) 0 False # rs) prev s = Some (take j s # segs)"
proof -
  have n: "length (takeWhile (\<lambda>c. True) s) = length s" by (simp add: takeWhile_True)
  let ?f = "\<lambda>k. map_option (Cons (take k s)) (rx_match rs (prev_after prev (take k s)) (drop k s))"
  have "first_some ?f ([0..<j] @ j # [Suc j..<Suc (length s)]) = Some (take j s # segs)"
    using assms(1,2) by (intro first_some_found) auto
  then show ?thesis
    using upt_Suc_split[of 0 j "length s"] assms(3) by (simp add: counts_lazy n del: upt_Suc)
qed

lemma rx_match_greedy_at:
  assumes "\<forall>k. j < k \<and> k \<le> length (takeWhile cl s) \<longrightarrow>
             rx_match rs (prev_after prev (take k s)) (drop k s) = None"
    and "rx_match rs (prev_after prev (take j s)) (drop j s) = Some segs"
    and "m \<le> j" and "j \<le> length (takeWhile cl s)"
  shows "rx_match (Rep cl m True # rs) prev s = Some (take j s # segs)"
proof -
  let ?n = "length (takeWhile cl s)"
  let ?f = "\<lambda>k. map_option (Cons (take k s)) (rx_match rs (prev_after prev (take k s)) (drop k s))"
  have "first_some ?f (rev [Suc j..<Suc ?n] @ j # rev [m..<j]) = Some (take j s # segs)"
    using assms(1,2) by (intro first_some_found) auto
  then show ?thesis
    using upt_Suc_split[OF assms(3,4)] by (simp add: counts_def del: upt_Suc)
qed

lemma search_skips_at:
  assumes "search_skips rs prev b r" and "k < length b"
  shows "rx_match rs (prev_after prev (take k b)) (drop k b @ r) = None"
  using assms
proof (induction b arbitrary: prev k)
  case Nil
  then show ?case by simp
next
  case (Cons c cs)
  show ?case
  proof (cases k)
    case 0
    with Cons.prems show ?thesis by (simp add: prev_after_def)
  next
    case (Suc i)
    with Cons.prems have "rx_match rs (prev_after (Some c) (take i cs)) (drop i cs @ r) = None"
      by (intro Cons.IH) auto
    moreover have "prev_after (Some c) (take i cs) = prev_after prev (take k (c # cs))"
      using Suc by (simp add: prev_after_def)
    ultimately show ?thesis using Suc by simp
  qed
qed

lemma search_skips_suffix:
  assumes "search_skips rs prev (a @ b) r"
  shows "search_skips rs (prev_after prev a) b r"
  using assms
proof (induction a arbitrary: prev)
  case Nil
  then show ?case by (simp add: prev_after_def)
next
  case (Cons c cs)
  then have "search_skips rs (prev_after (Some c) cs) b r" by simp
  moreover have "prev_after (Some c) cs = prev_after prev (c # cs)" by (simp add: prev_after_def)
  ultimately show ?case by simp
qed

lemma rx_search_skips:
  assumes "search_skips rs prev pre rest"
  shows "rx_search rs prev (pre @ rest) = rx_search rs (prev_after prev pre) rest"
  using assms
proof (induction pre arbitrary: prev)
  case Nil
  then show ?case by (simp add: prev_after_def)
next
  case (Cons c cs)
  then have "rx_search rs (Some c) (cs @ rest) = rx_search rs (prev_after (Some c) cs) rest"
    by simp
  moreover have "prev_after (Some c) cs = prev_after prev (c # cs)" by (simp add: prev_after_def)
  ultimately show ?case using Cons.prems by (simp del: rx_match.simps)
qed

lemma rx_search_here: "rx_match rs prev s = Some segs \<Longrightarrow> rx_search rs prev s = Some segs"
  by (cases s) (simp_all del: rx_match.simps)

lemma rx_match_lazy_skips:
  assumes "search_skips rs prev b r"
    and "rx_match rs (prev_after prev b) r = Some segs"
  shows "rx_match (Rep (\<lambda>c. True) 0 False # rs) prev (b @ r) = Some (b # segs)"
proof -
  have "\<forall>k<length b. rx_match rs (prev_after prev (take k (b @ r))) (drop k (b @ r)) = None"
    using search_skips_at[OF assms(1)] by simp
  moreover have "rx_match rs (prev_after prev (take (length b) (b @ r))) (drop (length b) (b @ r))
      = Some segs"
    using assms(2) by simp
  ultimately have "rx_match (Rep (\<lambda>c. True) 0 False # rs) prev (b @ r)
      = Some (take (length b) (b @ r) # segs)"
    by (intro rx_match_lazy_at) auto
  then show ?thesis by simp
qed

lemma newline_is_space: "is_space CHR ''\<newline>''"
  by (simp add: is_space_def)

lemma no_line_end_inside:
  assumes "CHR ''\<newline>'' \<notin> set (takeWhile is_space nxt)" "takeWhile is_space nxt \<noteq> nxt"
    and "i \<le> length (takeWhile is_space nxt)"
  shows "drop i nxt \<noteq> [] \<and> hd (drop i nxt) \<noteq> CHR ''\<newline>''"
proof -
  let ?lead = "takeWhile is_space nxt" and ?tail = "dropWhile is_space nxt"
  have nxt: "nxt = ?lead @ ?tail" by simp
  have t: "?tail \<noteq> []" using assms(2) by (metis nxt append_Nil2)
  then have h: "\<not> is_space (hd ?tail)" by (rule hd_dropWhile)
  have "drop i (?lead @ ?tail) = drop i ?lead @ drop (i - length ?lead) ?tail"
    by (rule drop_append)
  moreover have "i - length ?lead = 0" using assms(3) by simp
  ultimately have d: "drop i nxt = drop i ?lead @ ?tail"
    by (simp only: takeWhile_dropWhile_id drop_0)
  show ?thesis
  proof (cases "i < length ?lead")
    case True
    then have "hd (drop i nxt) = ?lead ! i" by (simp add: d hd_drop_conv_nth)
    moreover have "?lead ! i \<in> set ?lead" using True by simp
    ultimately show ?thesis using assms(1) t d by auto
  next
    case False
    then have "drop i nxt = ?tail" using d by simp
    then show ?thesis using t h newline_is_space by auto
  qed
qed

lemma rx_match_Eol:
  "rx_match [Eol] p s = (if s = [] \<or> hd s = CHR ''\<newline>'' then Some [[]] else None)"
  by simp

lemma end_pattern_match:
  assumes tw: "\<forall>c\<in>set tw. is_space c" and rest: "line_ends rest"
  shows "rx_match end_pattern (Some CHR ''\<newline>'') (''end'' @ tw @ rest) = Some [[], ''end'', tw, []]"
proof -
  have eol: "rx_match [Eol] p rest = Some [[]]" for p
    using rest by (auto simp: line_ends_def)
  have run: "takeWhile is_space (tw @ rest) = tw @ takeWhile is_space rest"
    using tw by (simp add: takeWhile_append2)
  have later: "rx_match [Eol] (prev_after p (take k (tw @ rest))) (drop k (tw @ rest)) = None"
    if k: "length tw < k" "k \<le> length (takeWhile is_space (tw @ rest))" for k p
  proof -
    from k run have r: "rest \<noteq> []" by auto
    then obtain nxt where nxt: "rest = CHR ''\<newline>'' # nxt"
      and nl: "CHR ''\<newline>'' \<notin> set (takeWhile is_space nxt)"
      and tx: "takeWhile is_space nxt \<noteq> nxt"
      using rest by (cases rest) (auto simp: line_ends_def)
    define i where "i = k - length tw - 1"
    have i: "i \<le> length (takeWhile is_space nxt)"
      using k run nxt newline_is_space by (simp add: i_def)
    have "k - length tw = Suc i" using k by (simp add: i_def)
    then have "drop k (tw @ rest) = drop i nxt"
      using k nxt by simp
    with no_line_end_inside[OF nl tx i] show ?thesis by simp
  qed
  have "rx_match [Rep is_space 0 True, Eol] p (tw @ rest) = Some (take (length tw) (tw @ rest) # [[]])"
    for p
    using later eol run by (intro rx_match_greedy_at) auto
  then have sp: "rx_match [Rep is_space 0 True, Eol] p (tw @ rest) = Some [tw, []]" for p
    by simp
  have "rx_match [Lit ''end'', Rep is_space 0 True, Eol] p (''end'' @ tw @ rest)
      = Some [''end'', tw, []]" for p
    by (rule rx_match_Lit) (rule sp)
  then show ?thesis
    unfolding end_pattern_def by (simp del: rx_match.simps(2,4))
qed

lemma body_to_end:
  assumes skips: "search_skips end_pattern (Some CHR ''\<newline>'') body (''end'' @ tw @ rest)"
    and body: "body = [] \<or> last body = CHR ''\<newline>''"
    and tw: "\<forall>c\<in>set tw. is_space c" and rest: "line_ends rest"
    and j: "j \<le> length body" "j = 0 \<or> body ! (j - 1) = CHR ''\<newline>''"
  shows "rx_match (Rep (\<lambda>c. True) 0 False # end_pattern) (Some CHR ''\<newline>'')
           (drop j body @ ''end'' @ tw @ rest) = Some [drop j body, [], ''end'', tw, []]"
proof -
  have p1: "prev_after (Some CHR ''\<newline>'') (take j body) = Some CHR ''\<newline>''"
  proof (cases "j = 0")
    case True
    then show ?thesis by (simp add: prev_after_def)
  next
    case False
    then have "take j body \<noteq> []" using j(1) by auto
    moreover have "last (take j body) = body ! (j - 1)"
    proof -
      obtain i where i: "j = Suc i" using False by (cases j) auto
      then have "take j body = take i body @ [body ! i]"
        using j(1) by (simp add: take_Suc_conv_app_nth)
      then show ?thesis using i by simp
    qed
    ultimately show ?thesis using j(2) False by (simp add: prev_after_def)
  qed
  have "search_skips end_pattern (prev_after (Some CHR ''\<newline>'') (take j body)) (drop j body)
          (''end'' @ tw @ rest)"
    using skips by (intro search_skips_suffix) simp
  then have s: "search_skips end_pattern (Some CHR ''\<newline>'') (drop j body) (''end'' @ tw @ rest)"
    by (simp only: p1)
  have p2: "prev_after (Some CHR ''\<newline>'') (drop j body) = Some CHR ''\<newline>''"
    using body by (auto simp: prev_after_def)
  have "rx_match end_pattern (prev_after (Some CHR ''\<newline>'') (drop j body)) (''end'' @ tw @ rest)
      = Some [[], ''end'', tw, []]"
    unfolding p2 using tw rest by (rule end_pattern_match)
  with s show ?thesis by (rule rx_match_lazy_skips)
qed

lemma prev_after_newline: "prev_after p ''\<newline>'' = Some CHR ''\<newline>''"
  by (simp add: prev_after_def)

lemma rx_match_Lit_fails: "\<not> prefix l s \<Longrightarrow> rx_match (Lit l # rs) p s = None"
  by simp

lemma newline_then_body:
  assumes skips: "search_skips end_pattern (Some CHR ''\<newline>'') body (''end'' @ tw @ rest)"
    and body: "body = [] \<or> last body = CHR ''\<newline>''"
    and tw: "\<forall>c\<in>set tw. is_space c" and rest: "line_ends rest"
    and ws3: "CHR ''\<newline>'' \<notin> set ws3"
    and k: "k \<le> length ws3 + 1 + length body"
  shows "rx_match (Lit ''\<newline>'' # Rep (\<lambda>c. True) 0 False # end_pattern) p
           (drop k (ws3 @ ''\<newline>'' @ body @ ''end'' @ tw @ rest)) = None \<or>
         (\<exists>segs. rx_match (Lit ''\<newline>'' # Rep (\<lambda>c. True) 0 False # end_pattern) p
                   (drop k (ws3 @ ''\<newline>'' @ body @ ''end'' @ tw @ rest)) = Some segs \<and>
                 concat segs = drop k (ws3 @ ''\<newline>'' @ body @ ''end'' @ tw))"
proof -
  let ?L = "Lit ''\<newline>'' # Rep (\<lambda>c. True) 0 False # end_pattern"
  let ?s = "ws3 @ ''\<newline>'' @ body @ ''end'' @ tw @ rest"
  have found: "rx_match ?L p (''\<newline>'' @ drop j body @ ''end'' @ tw @ rest)
      = Some [''\<newline>'', drop j body, [], ''end'', tw, []]"
    if "j \<le> length body" "j = 0 \<or> body ! (j - 1) = CHR ''\<newline>''" for j
    by (rule rx_match_Lit) (simp only: prev_after_newline body_to_end[OF skips body tw rest that])
  define i where "i = k - length ws3 - 1"
  have ki: "length ws3 < k \<Longrightarrow> k = length ws3 + 1 + i" and il: "i \<le> length body"
    using k by (simp_all add: i_def)
  consider (a) "k < length ws3" | (b) "k = length ws3"
    | (c) "k = length ws3 + 1 + i" "i < length body" "body ! i = CHR ''\<newline>''"
    | (d) "k = length ws3 + 1 + i" "i < length body" "body ! i \<noteq> CHR ''\<newline>''"
    | (e) "k = length ws3 + 1 + length body"
  proof (cases "k \<le> length ws3")
    case True
    then show ?thesis using a b by (cases "k = length ws3") auto
  next
    case False
    then have 1: "k = length ws3 + 1 + i" using ki by simp
    show ?thesis
    proof (cases "i < length body")
      case True
      then show ?thesis using 1 c d by (cases "body ! i = CHR ''\<newline>''") auto
    next
      case False
      then have "i = length body" using il by simp
      then show ?thesis using 1 e by simp
    qed
  qed
  then show ?thesis
  proof cases
    case a
    then have "drop k ?s = (ws3 ! k) # drop (Suc k) ws3 @ ''\<newline>'' @ body @ ''end'' @ tw @ rest"
      by (simp add: Cons_nth_drop_Suc)
    moreover have "ws3 ! k \<in> set ws3" using a by (rule nth_mem)
    then have "ws3 ! k \<noteq> CHR ''\<newline>''" using ws3 by (cases "ws3 ! k = CHR ''\<newline>''") simp_all
    ultimately have "\<not> prefix ''\<newline>'' (drop k ?s)" by simp
    then show ?thesis using rx_match_Lit_fails by blast
  next
    case b
    then have "drop k ?s = ''\<newline>'' @ drop 0 body @ ''end'' @ tw @ rest" by simp
    moreover have "drop k (ws3 @ ''\<newline>'' @ body @ ''end'' @ tw) = ''\<newline>'' @ body @ ''end'' @ tw"
      using b by simp
    moreover have "rx_match ?L p (''\<newline>'' @ drop 0 body @ ''end'' @ tw @ rest)
      = Some [''\<newline>'', drop 0 body, [], ''end'', tw, []]"
      by (rule found) simp_all
    ultimately show ?thesis by simp
  next
    case c
    have db: "drop i body = CHR ''\<newline>'' # drop (Suc i) body"
      using c(2,3) Cons_nth_drop_Suc[of i body] by simp
    have "drop k ?s = drop i body @ ''end'' @ tw @ rest" using c(1,2) by simp
    then have 1: "drop k ?s = ''\<newline>'' @ drop (Suc i) body @ ''end'' @ tw @ rest"
      by (simp add: db)
    have "drop k (ws3 @ ''\<newline>'' @ body @ ''end'' @ tw) = drop i body @ ''end'' @ tw"
      using c(1,2) by simp
    then have 2: "drop k (ws3 @ ''\<newline>'' @ body @ ''end'' @ tw)
        = ''\<newline>'' @ drop (Suc i) body @ ''end'' @ tw"
      by (simp add: db)
    have 3: "rx_match ?L p (''\<newline>'' @ drop (Suc i) body @ ''end'' @ tw @ rest)
      = Some [''\<newline>'', drop (Suc i) body, [], ''end'', tw, []]"
      using c(2,3) by (intro found) auto
    show ?thesis unfolding 1 2 3 by simp
  next
    case d
    have db: "drop i body = (body ! i) # drop (Suc i) body"
      using d(2) Cons_nth_drop_Suc[of i body] by simp
    have "drop k ?s = drop i body @ ''end'' @ tw @ rest" using d(1,2) by simp
    then have "\<not> prefix ''\<newline>'' (drop k ?s)" using d(3) by (simp add: db)
    then show ?thesis using rx_match_Lit_fails by blast
  next
    case e
    then have "drop k ?s = ''end'' @ tw @ rest" by simp
    then have "\<not> prefix ''\<newline>'' (drop k ?s)" by simp
    then show ?thesis using rx_match_Lit_fails by blast
  qed
qed

lemma takeWhile_bound:
  assumes "b \<noteq> []" "\<not> P (hd b)"
  shows "length (takeWhile P (a @ b)) \<le> length a"
proof (induction a)
  case Nil
  then show ?case using assms by (cases b) auto
next
  case (Cons x a)
  then show ?case by simp
qed

lemma take_append_short: "k \<le> length a \<Longrightarrow> take k (a @ b) = take k a"
  by simp

lemma set_counts: "set (counts g m n) = {m..n}"
  by (auto simp: counts_def)

lemma header_space:
  assumes skips: "search_skips end_pattern (Some CHR ''\<newline>'') body (''end'' @ tw @ rest)"
    and body: "body = [] \<or> last body = CHR ''\<newline>''"
    and tw: "\<forall>c\<in>set tw. is_space c" and rest: "line_ends rest"
    and ws3: "\<forall>c\<in>set ws3. is_space c" "CHR ''\<newline>'' \<notin> set ws3"
  shows "\<exists>segs. rx_match (Rep is_space 0 True # Lit ''\<newline>'' # Rep (\<lambda>c. True) 0 False # end_pattern) p
                  (ws3 @ ''\<newline>'' @ body @ ''end'' @ tw @ rest) = Some segs \<and>
               concat segs = ws3 @ ''\<newline>'' @ body @ ''end'' @ tw"
proof -
  let ?L = "Lit ''\<newline>'' # Rep (\<lambda>c. True) 0 False # end_pattern"
  let ?X = "ws3 @ ''\<newline>'' @ body @ ''end'' @ tw"
  let ?s = "ws3 @ ''\<newline>'' @ body @ ''end'' @ tw @ rest"
  let ?n = "length (takeWhile is_space ?s)"
  let ?f = "\<lambda>k. map_option (Cons (take k ?s)) (rx_match ?L (prev_after p (take k ?s)) (drop k ?s))"
  have "length (takeWhile is_space ((ws3 @ ''\<newline>'' @ body) @ ''end'' @ tw @ rest))
          \<le> length (ws3 @ ''\<newline>'' @ body)"
    by (rule takeWhile_bound) (simp_all add: is_space_def)
  then have n: "?n \<le> length ws3 + 1 + length body" by simp
  have "takeWhile is_space ?s = ws3 @ takeWhile is_space (''\<newline>'' @ body @ ''end'' @ tw @ rest)"
    using ws3(1) by (simp add: takeWhile_append2)
  then have n': "length ws3 \<le> ?n" by simp
  have each: "?f k = None \<or> (\<exists>y. ?f k = Some y \<and> concat y = ?X)" if "k \<le> ?n" for k
  proof -
    have k: "k \<le> length ws3 + 1 + length body" using that n by simp
    have tk: "take k ?s @ drop k ?X = ?X"
    proof -
      have sx: "?s = ?X @ rest" by simp
      have "k \<le> length ?X" using k by simp
      then have "take k (?X @ rest) = take k ?X" by (rule take_append_short)
      then have "take k ?s = take k ?X" by (simp only: sx)
      then show ?thesis by (simp only: append_take_drop_id)
    qed
    from newline_then_body[OF skips body tw rest ws3(2) k, of "prev_after p (take k ?s)"]
    show ?thesis using tk by auto
  qed
  have here: "?f (length ws3) \<noteq> None"
  proof -
    have b0: "rx_match (Rep (\<lambda>c. True) 0 False # end_pattern) (Some CHR ''\<newline>'')
        (drop 0 body @ ''end'' @ tw @ rest) = Some [drop 0 body, [], ''end'', tw, []]"
      by (rule body_to_end[OF skips body tw rest]) simp_all
    have "rx_match ?L (prev_after p (take (length ws3) ?s)) (''\<newline>'' @ drop 0 body @ ''end'' @ tw @ rest)
        = Some [''\<newline>'', drop 0 body, [], ''end'', tw, []]"
      by (rule rx_match_Lit) (simp only: prev_after_newline b0)
    then show ?thesis by simp
  qed
  have "\<exists>y. first_some ?f (counts True 0 ?n) = Some y \<and> concat y = ?X"
  proof (rule first_some_cases)
    show "\<forall>k\<in>set (counts True 0 ?n). ?f k = None \<or> (\<exists>y. ?f k = Some y \<and> concat y = ?X)"
      using each by (simp add: set_counts)
    show "\<exists>k\<in>set (counts True 0 ?n). ?f k \<noteq> None"
      using here n' unfolding set_counts by (intro bexI[of _ "length ws3"]) auto
  qed
  then show ?thesis by simp
qed

lemma declaration_match:
  assumes skips: "search_skips end_pattern (Some CHR ''\<newline>'') body (''end'' @ tw @ rest)"
    and body: "body = [] \<or> last body = CHR ''\<newline>''"
    and tw: "\<forall>c\<in>set tw. is_space c" and rest: "line_ends rest"
    and ws3: "\<forall>c\<in>set ws3. is_space c" "CHR ''\<newline>'' \<notin> set ws3"
    and args: "CHR '')'' \<notin> set args"
    and ws2: "\<forall>c\<in>set ws2. is_space c"
    and name: "name \<noteq> []" "\<not> is_space (hd name)"
    and ws1: "ws1 \<noteq> []" "\<forall>c\<in>set ws1. is_space c"
  shows "\<exists>segs. rx_match (declaration_pattern name) p
                  (''function'' @ ws1 @ name @ ws2 @ ''('' @ args @ '')'' @ ws3 @ ''\<newline>'' @ body
                     @ ''end'' @ tw @ rest) = Some segs \<and>
               concat segs =
                 ''function'' @ ws1 @ name @ ws2 @ ''('' @ args @ '')'' @ ws3 @ ''\<newline>'' @ body
                   @ ''end'' @ tw"
proof -
  let ?H = "Rep is_space 0 True # Lit ''\<newline>'' # Rep (\<lambda>c. True) 0 False # end_pattern"
  let ?s = "ws3 @ ''\<newline>'' @ body @ ''end'' @ tw @ rest"
  let ?X = "ws3 @ ''\<newline>'' @ body @ ''end'' @ tw"
  have close: "\<exists>segs. rx_match (Lit '')'' # ?H) q ('')'' @ ?s) = Some segs \<and> concat segs = '')'' @ ?X"
    for q
  proof -
    obtain segs where "rx_match ?H (prev_after q '')'') ?s = Some segs" "concat segs = ?X"
      using header_space[OF skips body tw rest ws3] by blast
    then show ?thesis using rx_match_Lit[of ?H q "'')''" ?s segs] by simp
  qed
  obtain s5 where s5: "rx_match (Lit '')'' # ?H) (prev_after (prev_after (prev_after
        (prev_after (prev_after (prev_after p ''function'') ws1) name) ws2) ''('') (take (length args) (args @ '')'' @ ?s)))
        ('')'' @ ?s) = Some s5" and c5: "concat s5 = '')'' @ ?X"
    using close by blast
  have nopar: "rx_match (Lit '')'' # ?H) q (drop k (args @ '')'' @ ?s)) = None" if "k < length args" for k q
  proof -
    have "drop k (args @ '')'' @ ?s) = (args ! k) # drop (Suc k) args @ '')'' @ ?s"
      using that by (simp add: Cons_nth_drop_Suc)
    moreover have "args ! k \<in> set args" using that by (rule nth_mem)
    then have "args ! k \<noteq> CHR '')''" using args by (cases "args ! k = CHR '')''") simp_all
    ultimately have "\<not> prefix '')'' (drop k (args @ '')'' @ ?s))" by simp
    then show ?thesis by (rule rx_match_Lit_fails)
  qed
  let ?p4 = "prev_after (prev_after (prev_after (prev_after (prev_after p ''function'') ws1) name) ws2) ''(''"
  have m4: "rx_match (Rep (\<lambda>c. True) 0 False # Lit '')'' # ?H) ?p4 (args @ '')'' @ ?s)
      = Some (take (length args) (args @ '')'' @ ?s) # s5)"
    by (rule rx_match_lazy_at) (use nopar s5 in auto)
  then have m4': "rx_match (Rep (\<lambda>c. True) 0 False # Lit '')'' # ?H) ?p4 (args @ '')'' @ ?s)
      = Some (args # s5)" by simp
  have m3: "rx_match (Lit ''('' # Rep (\<lambda>c. True) 0 False # Lit '')'' # ?H)
      (prev_after (prev_after (prev_after (prev_after p ''function'') ws1) name) ws2)
      (''('' @ args @ '')'' @ ?s) = Some (''('' # args # s5)"
    by (rule rx_match_Lit) (rule m4')
  have m2: "rx_match (Rep is_space 0 True # Lit ''('' # Rep (\<lambda>c. True) 0 False # Lit '')'' # ?H)
      (prev_after (prev_after (prev_after p ''function'') ws1) name)
      (ws2 @ ''('' @ args @ '')'' @ ?s) = Some (ws2 # ''('' # args # s5)"
    by (rule rx_match_greedy_run[OF _ _ _ m3]) (use ws2 in \<open>auto simp: is_space_def\<close>)
  have m1: "rx_match (Lit name # Rep is_space 0 True # Lit ''('' # Rep (\<lambda>c. True) 0 False
        # Lit '')'' # ?H)
      (prev_after (prev_after p ''function'') ws1)
      (name @ ws2 @ ''('' @ args @ '')'' @ ?s) = Some (name # ws2 # ''('' # args # s5)"
    by (rule rx_match_Lit) (rule m2)
  have m0: "rx_match (Rep is_space 1 True # Lit name # Rep is_space 0 True # Lit ''(''
        # Rep (\<lambda>c. True) 0 False # Lit '')'' # ?H)
      (prev_after p ''function'')
      (ws1 @ name @ ws2 @ ''('' @ args @ '')'' @ ?s) = Some (ws1 # name # ws2 # ''('' # args # s5)"
    by (rule rx_match_greedy_run[OF _ _ _ m1])
      (use ws1 name in \<open>auto simp: Suc_le_eq\<close>)
  have "rx_match (Lit ''function'' # Rep is_space 1 True # Lit name # Rep is_space 0 True
        # Lit ''('' # Rep (\<lambda>c. True) 0 False # Lit '')'' # ?H) p
      (''function'' @ ws1 @ name @ ws2 @ ''('' @ args @ '')'' @ ?s)
      = Some (''function'' # ws1 # name # ws2 # ''('' # args # s5)"
    by (rule rx_match_Lit) (rule m0)
  then have "rx_match (declaration_pattern name) p
      (''function'' @ ws1 @ name @ ws2 @ ''('' @ args @ '')'' @ ?s)
      = Some (''function'' # ws1 # name # ws2 # ''('' # args # s5)"
    by (simp only: declaration_pattern_def end_pattern_def)
  moreover have "concat (''function'' # ws1 # name # ws2 # ''('' # args # s5) =
      ''function'' @ ws1 @ name @ ws2 @ ''('' @ args @ '')'' @ ?X"
    using c5 by simp
  ultimately show ?thesis by (simp del: rx_match.simps)
qed

lemma contains_Cons: "contains sub s \<Longrightarrow> contains sub (c # s)"
  by simp

lemma rx_match_Lit_contains:
  "rx_match rs p s = Some segs \<Longrightarrow> Lit l \<in> set rs \<Longrightarrow> contains l s"
proof (induction rs arbitrary: p s segs)
  case Nil
  then show ?case by simp
next
  case (Cons r rs)
  show ?case
  proof (cases r)
    case (Lit l')
    with Cons.prems(1) obtain segs' where pre: "prefix l' s"
      and m: "rx_match rs (prev_after p l') (drop (length l') s) = Some segs'"
      by (auto split: if_splits)
    show ?thesis
    proof (cases "l = l'")
      case True
      with pre show ?thesis by (simp add: contains_prefix)
    next
      case False
      with Cons.prems(2) Lit have "Lit l \<in> set rs" by simp
      from Cons.IH[OF m this] show ?thesis by (rule contains_drop)
    qed
  next
    case (Cls cl)
    with Cons.prems(1) obtain x xs segs' where s: "s = x # xs"
      and m: "rx_match rs (Some x) xs = Some segs'"
      by (auto split: list.splits if_splits)
    from Cons.prems(2) Cls have "Lit l \<in> set rs" by simp
    from Cons.IH[OF m this] show ?thesis unfolding s by (rule contains_Cons)
  next
    case (Rep cl m g)
    with Cons.prems(1) obtain k segs' where
      m: "rx_match rs (prev_after p (take k s)) (drop k s) = Some segs'"
      by (auto dest!: first_some_Some)
    from Cons.prems(2) Rep have "Lit l \<in> set rs" by simp
    from Cons.IH[OF m this] show ?thesis by (rule contains_drop)
  next
    case Bol
    with Cons.prems(1) obtain segs' where m: "rx_match rs p s = Some segs'"
      by (auto split: if_splits)
    from Cons.prems(2) Bol have "Lit l \<in> set rs" by simp
    from Cons.IH[OF m this] show ?thesis .
  next
    case Eol
    with Cons.prems(1) obtain segs' where m: "rx_match rs p s = Some segs'"
      by (auto split: if_splits)
    from Cons.prems(2) Eol have "Lit l \<in> set rs" by simp
    from Cons.IH[OF m this] show ?thesis .
  qed
qed

lemma rx_search_Lit_contains:
  "rx_search rs p s = Some segs \<Longrightarrow> Lit l \<in> set rs \<Longrightarrow> contains l s"
proof (induction s arbitrary: p)
  case Nil
  then show ?case using rx_match_Lit_contains[of rs p "[]" segs l] by simp
next
  case (Cons c cs)
  show ?case
  proof (cases "rx_match rs p (c # cs)")
    case None
    with Cons.prems(1) have "rx_search rs (Some c) cs = Some segs" by (simp del: rx_match.simps)
    from Cons.IH[OF this Cons.prems(2)] show ?thesis by simp
  next
    case (Some a)
    from rx_match_Lit_contains[OF Some Cons.prems(2)] show ?thesis .
  qed
qed

lemma extract_function_block_absent:
  assumes "\<not> contains function_name lua_code"
  shows "extract_function_block lua_code function_name = None"
proof -
  have "rx_search (assignment_pattern function_name) None lua_code = None"
  proof (cases "rx_search (assignment_pattern function_name) None lua_code")
    case (Some segs)
    then have "contains function_name lua_code"
      by (rule rx_search_Lit_contains) (simp add: assignment_pattern_def)
    with assms show ?thesis by simp
  qed simp
  moreover have "rx_search (declaration_pattern function_name) None lua_code = None"
  proof (cases "rx_search (declaration_pattern function_name) None lua_code")
    case (Some segs)
    then have "contains function_name lua_code"
      by (rule rx_search_Lit_contains) (simp add: declaration_pattern_def)
    with assms show ?thesis by simp
  qed simp
  ultimately show ?thesis by (simp add: extract_function_block_def)
qed

lemma extract_declared_block:
  assumes assignment: "rx_search (assignment_pattern name) None (pre @ block @ rest) = None"
    and earlier: "search_skips (declaration_pattern name) None pre (block @ rest)"
    and block: "block = ''function'' @ ws1 @ name @ ws2 @ ''('' @ args @ '')'' @ ws3 @ ''\<newline>''
                  @ body @ ''end'' @ tw"
    and ws: "ws1 \<noteq> []" "\<forall>c\<in>set (ws1 @ ws2 @ ws3 @ tw). is_space c" "CHR ''\<newline>'' \<notin> set ws3"
    and name: "name \<noteq> []" "\<not> is_space (hd name)"
    and args: "CHR '')'' \<notin> set args"
    and body: "body = [] \<or> last body = CHR ''\<newline>''"
      "search_skips end_pattern (Some CHR ''\<newline>'') body (''end'' @ tw @ rest)"
    and rest: "line_ends rest"
  shows "extract_function_block (pre @ block @ rest) name = Some block"
proof -
  have "\<exists>segs. rx_match (declaration_pattern name) (prev_after None pre)
                  (''function'' @ ws1 @ name @ ws2 @ ''('' @ args @ '')'' @ ws3 @ ''\<newline>'' @ body
                     @ ''end'' @ tw @ rest) = Some segs \<and>
               concat segs =
                 ''function'' @ ws1 @ name @ ws2 @ ''('' @ args @ '')'' @ ws3 @ ''\<newline>'' @ body
                   @ ''end'' @ tw"
    by (rule declaration_match) (use ws name args body rest in auto)
  then obtain segs where
    m: "rx_match (declaration_pattern name) (prev_after None pre) (block @ rest) = Some segs"
    and c: "concat segs = block"
    unfolding block by auto
  have "rx_search (declaration_pattern name) None (pre @ block @ rest) =
        rx_search (declaration_pattern name) (prev_after None pre) (block @ rest)"
    using earlier by (rule rx_search_skips)
  also have "\<dots> = Some segs" using m by (rule rx_search_here)
  finally show ?thesis using assignment c by (simp add: extract_function_block_def)
qed

text \<open>
  Claim C7, amended. Let the source hold, after a prefix \<open>pre\<close>, a declaration
  \<^verbatim>\<open>function <name>(<args>)\<close> closed by a line break, a body, a line-leading \<^verbatim>\<open>end\<close>
  and the whitespace \<open>tw\<close> up to a line end. When the assignment form matches nowhere, the
  declaration form matches at no position of the prefix, and no earlier line of the body
  starts with an \<^verbatim>\<open>end\<close> that is followed only by whitespace to its line end, then
  \<^verbatim>\<open>extract_function_block\<close> returns the text from \<^verbatim>\<open>function\<close> through that \<^verbatim>\<open>end\<close>
  together with the whitespace \<open>tw\<close>. It returns \<^verbatim>\<open>None\<close> when neither form matches, which
  is the case when the name does not occur in the source.
\<close>

theorem extract_function_block_declared:
  "(rx_search (assignment_pattern name) None (pre @ block @ rest) = None \<and>
    search_skips (declaration_pattern name) None pre (block @ rest) \<and>
    block = ''function'' @ ws1 @ name @ ws2 @ ''('' @ args @ '')'' @ ws3 @ ''\<newline>''
              @ body @ ''end'' @ tw \<and>
    ws1 \<noteq> [] \<and> (\<forall>c\<in>set (ws1 @ ws2 @ ws3 @ tw). is_space c) \<and> CHR ''\<newline>'' \<notin> set ws3 \<and>
    name \<noteq> [] \<and> \<not> is_space (hd name) \<and> CHR '')'' \<notin> set args \<and>
    (body = [] \<or> last body = CHR ''\<newline>'') \<and>
    search_skips end_pattern (Some CHR ''\<newline>'') body (''end'' @ tw @ rest) \<and>
    line_ends rest \<longrightarrow>
      extract_function_block (pre @ block @ rest) name = Some block) \<and>
   (rx_search (assignment_pattern function_name) None lua_code = None \<and>
    rx_search (declaration_pattern function_name) None lua_code = None \<longrightarrow>
      extract_function_block lua_code function_name = None) \<and>
   (\<not> contains function_name lua_code \<longrightarrow>
      extract_function_block lua_code function_name = None)"
proof (intro conjI impI)
  assume a: "rx_search (assignment_pattern name) None (pre @ block @ rest) = None \<and>
    search_skips (declaration_pattern name) None pre (block @ rest) \<and>
    block = ''function'' @ ws1 @ name @ ws2 @ ''('' @ args @ '')'' @ ws3 @ ''\<newline>''
              @ body @ ''end'' @ tw \<and>
    ws1 \<noteq> [] \<and> (\<forall>c\<in>set (ws1 @ ws2 @ ws3 @ tw). is_space c) \<and> CHR ''\<newline>'' \<notin> set ws3 \<and>
    name \<noteq> [] \<and> \<not> is_space (hd name) \<and> CHR '')'' \<notin> set args \<and>
    (body = [] \<or> last body = CHR ''\<newline>'') \<and>
    search_skips end_pattern (Some CHR ''\<newline>'') body (''end'' @ tw @ rest) \<and>
    line_ends rest"
  show "extract_function_block (pre @ block @ rest) name = Some block"
    by (rule extract_declared_block[where ?ws1.0 = ws1 and ?ws2.0 = ws2 and ?ws3.0 = ws3
          and tw = tw and args = args and body = body])
      (use a in blast)+
next
  assume "rx_search (assignment_pattern function_name) None lua_code = None \<and>
    rx_search (declaration_pattern function_name) None lua_code = None"
  then show "extract_function_block lua_code function_name = None"
    by (simp add: extract_function_block_def)
next
  assume "\<not> contains function_name lua_code"
  then show "extract_function_block lua_code function_name = None"
    by (rule extract_function_block_absent)
qed

theorem extract_function_block_declared_witness:
  "extract_function_block
     ''local Widget = {}\<newline>function Widget.make(x)\<newline>  return x\<newline>end\<newline>\<newline>return Widget\<newline>''
     ''Widget.make'' = Some ''function Widget.make(x)\<newline>  return x\<newline>end\<newline>'' \<and>
   extract_function_block ''function Widget.make(x)\<newline>  return x\<newline>end'' ''Widget.make''
     = Some ''function Widget.make(x)\<newline>  return x\<newline>end'' \<and>
   \<not> contains ''Widget.none'' ''function Widget.make(x)\<newline>  return x\<newline>end'' \<and>
   extract_function_block ''function Widget.make(x)\<newline>  return x\<newline>end'' ''Widget.none''
     = None \<and>
   rx_search (assignment_pattern ''make'') None ''function Widget.make(x)\<newline>  return x\<newline>end''
     = None \<and>
   rx_search (declaration_pattern ''make'') None ''function Widget.make(x)\<newline>  return x\<newline>end''
     = None \<and>
   extract_function_block ''function Widget.make(x)\<newline>  return x\<newline>end'' ''make'' = None"
proof -
  let ?src = "''function Widget.make(x)\<newline>  return x\<newline>end''"
  have h1: "rx_search (assignment_pattern ''Widget.make'') None
        (''local Widget = {}\<newline>'' @
         ''function Widget.make(x)\<newline>  return x\<newline>end\<newline>'' @ ''\<newline>return Widget\<newline>'') = None"
    by code_simp
  have h2: "search_skips (declaration_pattern ''Widget.make'') None ''local Widget = {}\<newline>''
        (''function Widget.make(x)\<newline>  return x\<newline>end\<newline>'' @ ''\<newline>return Widget\<newline>'')"
    by code_simp
  have h3: "search_skips end_pattern (Some CHR ''\<newline>'') ''  return x\<newline>''
        (''end'' @ ''\<newline>'' @ ''\<newline>return Widget\<newline>'')"
    by code_simp
  have h4: "line_ends ''\<newline>return Widget\<newline>''" by code_simp
  have 1: "extract_function_block
     ''local Widget = {}\<newline>function Widget.make(x)\<newline>  return x\<newline>end\<newline>\<newline>return Widget\<newline>''
     ''Widget.make'' = Some ''function Widget.make(x)\<newline>  return x\<newline>end\<newline>''"
    using extract_function_block_declared[where name = "''Widget.make''"
        and pre = "''local Widget = {}\<newline>''"
        and block = "''function Widget.make(x)\<newline>  return x\<newline>end\<newline>''"
        and rest = "''\<newline>return Widget\<newline>''" and ?ws1.0 = "'' ''" and ?ws2.0 = "[]"
        and ?ws3.0 = "[]" and args = "''x''" and body = "''  return x\<newline>''" and tw = "''\<newline>''"]
      h1 h2 h3 h4
    by (simp add: is_space_def)
  have g1: "rx_search (assignment_pattern ''Widget.make'') None ([] @ ?src @ []) = None"
    by code_simp
  have g3: "search_skips end_pattern (Some CHR ''\<newline>'') ''  return x\<newline>'' (''end'' @ [] @ [])"
    by code_simp
  have 2: "extract_function_block ?src ''Widget.make'' = Some ?src"
    using extract_function_block_declared[where name = "''Widget.make''"
        and pre = "[]" and block = ?src and rest = "[]" and ?ws1.0 = "'' ''" and ?ws2.0 = "[]"
        and ?ws3.0 = "[]" and args = "''x''" and body = "''  return x\<newline>''" and tw = "[]"]
      g1 g3
    by (simp add: is_space_def line_ends_def)
  have 3: "\<not> contains ''Widget.none'' ?src" by code_simp
  have 4: "extract_function_block ?src ''Widget.none'' = None"
    using extract_function_block_declared[where function_name = "''Widget.none''"
        and lua_code = ?src] 3
    by blast
  have 5: "rx_search (assignment_pattern ''make'') None ?src = None"
    and 6: "rx_search (declaration_pattern ''make'') None ?src = None"
    by code_simp+
  have 7: "extract_function_block ?src ''make'' = None"
    using extract_function_block_declared[where function_name = "''make''" and lua_code = ?src]
      5 6
    by blast
  from 1 2 3 4 5 6 7 show ?thesis by blast
qed

text \<open>With a line break after the \<^verbatim>\<open>end\<close> the result is longer than the block from
  \<^verbatim>\<open>function\<close> through \<^verbatim>\<open>end\<close>, and with a comment after the \<^verbatim>\<open>end\<close> the declared
  function is not found.\<close>

theorem extract_function_block_counterexample:
  "extract_function_block ''function Widget.make(x)\<newline>  return x\<newline>end\<newline>'' ''Widget.make''
     = Some ''function Widget.make(x)\<newline>  return x\<newline>end\<newline>'' \<and>
   extract_function_block ''function Widget.make(x)\<newline>  return x\<newline>end\<newline>'' ''Widget.make''
     \<noteq> Some ''function Widget.make(x)\<newline>  return x\<newline>end'' \<and>
   extract_function_block ''function Widget.make(x)\<newline>  return x\<newline>end -- make\<newline>''
     ''Widget.make'' = None"
  by code_simp

subsection \<open>Segments of a match\<close>

text \<open>A match has one segment for each item of its pattern, so the groups that
  \<^verbatim>\<open>extract_local_requirements\<close> reads, at positions 2 and 9 of the eleven segments, exist.\<close>

lemma rx_match_length: "rx_match rs p s = Some segs \<Longrightarrow> length segs = length rs"
proof (induction rs arbitrary: p s segs)
  case Nil
  then show ?case by simp
next
  case (Cons r rs)
  show ?case
  proof (cases r)
    case (Lit l)
    with Cons.prems obtain segs' where "segs = l # segs'"
      and "rx_match rs (prev_after p l) (drop (length l) s) = Some segs'"
      by (auto split: if_splits)
    with Cons.IH show ?thesis by auto
  next
    case (Cls cl)
    with Cons.prems obtain x xs segs' where "segs = [x] # segs'"
      and "rx_match rs (Some x) xs = Some segs'"
      by (auto split: list.splits if_splits)
    with Cons.IH show ?thesis by auto
  next
    case (Rep cl m g)
    with Cons.prems obtain k segs' where "segs = take k s # segs'"
      and "rx_match rs (prev_after p (take k s)) (drop k s) = Some segs'"
      by (auto dest!: first_some_Some)
    with Cons.IH show ?thesis by auto
  next
    case Bol
    with Cons.prems obtain segs' where "segs = [] # segs'" and "rx_match rs p s = Some segs'"
      by (auto split: if_splits)
    with Cons.IH show ?thesis by auto
  next
    case Eol
    with Cons.prems obtain segs' where "segs = [] # segs'" and "rx_match rs p s = Some segs'"
      by (auto split: if_splits)
    with Cons.IH show ?thesis by auto
  qed
qed

lemma rx_findall_length:
  "segs \<in> set (rx_findall rs p k s) \<Longrightarrow> length segs = length rs"
proof (induction s arbitrary: p k)
  case Nil
  show ?case
  proof (cases "rx_match rs p []")
    case None
    with Nil show ?thesis by (cases "k = 0") (simp_all del: rx_match.simps)
  next
    case (Some a)
    with Nil have "segs = a" by (cases "k = 0") (simp_all del: rx_match.simps)
    with Some show ?thesis by (simp add: rx_match_length del: rx_match.simps)
  qed
next
  case (Cons c cs)
  show ?case
  proof (cases "0 < k")
    case True
    with Cons show ?thesis by (simp del: rx_match.simps)
  next
    case False
    show ?thesis
    proof (cases "rx_match rs p (c # cs)")
      case None
      with Cons False show ?thesis by (simp del: rx_match.simps)
    next
      case (Some a)
      with Cons.prems False
      consider "segs = a" | "segs \<in> set (rx_findall rs (Some c) (length (concat a) - 1) cs)"
        by (auto simp del: rx_match.simps)
      then show ?thesis
      proof cases
        case 1
        with Some show ?thesis by (simp add: rx_match_length del: rx_match.simps)
      next
        case 2
        then show ?thesis by (rule Cons.IH)
      qed
    qed
  qed
qed

lemma require_groups_exist:
  "segs \<in> set (rx_findall require_pattern None 0 lua_code) \<Longrightarrow> length segs = 11"
  using rx_findall_length[of segs require_pattern None 0 lua_code]
  by (simp add: require_pattern_def)

end
